theory Spec2Isabelle
  imports Main "HOL-Library.AList" "HOL-Library.Product_Lexorder"
    "HOL-Library.List_Lexorder" "HOL-Library.Char_ord" "HOL-Library.Multiset"
begin

section \<open>Values, documents and keys\<close>

text \<open>
  Store values are JavaScript objects (\<^verbatim>\<open>Record<string, unknown>\<close>): an association list
  from property name to value, in property order. A property can be present and hold
  \<^verbatim>\<open>undefined\<close>, which is what \<^verbatim>\<open>val?._block_ts\<close> yields for a missing property.
\<close>

datatype jsval = Undefined | Null | Num int | Str string

type_synonym document = "(string \<times> jsval) list"

definition js_get :: "document \<Rightarrow> string \<Rightarrow> jsval" where
  "js_get d k = (case map_of d k of None \<Rightarrow> Undefined | Some v \<Rightarrow> v)"

text \<open>\<^verbatim>\<open>key.split(".")\<close>: the parts between the dots; the empty string splits to one empty part.\<close>

fun split_dot :: "string \<Rightarrow> string list" where
  "split_dot [] = [[]]"
| "split_dot (c # cs) =
     (if c = CHR ''.'' then [] # split_dot cs
      else (case split_dot cs of [] \<Rightarrow> [[c]] | p # ps \<Rightarrow> (c # p) # ps))"

text \<open>\<^verbatim>\<open>const [ref, id] = key.split(".")\<close>: \<^verbatim>\<open>ref\<close> is always a string, \<^verbatim>\<open>id\<close> is
  \<^verbatim>\<open>undefined\<close> (here \<open>None\<close>) when the key has no dot.\<close>

definition key_ref :: "string \<Rightarrow> string" where
  "key_ref k = (case split_dot k of [] \<Rightarrow> [] | r # _ \<Rightarrow> r)"

definition key_id :: "string \<Rightarrow> string option" where
  "key_id k = (case split_dot k of _ # i # _ \<Rightarrow> Some i | _ \<Rightarrow> None)"

text \<open>JavaScript truthiness of a string, and of a possibly undefined string.\<close>

definition truthy :: "string \<Rightarrow> bool" where
  "truthy s = (s \<noteq> [])"

definition truthy_opt :: "string option \<Rightarrow> bool" where
  "truthy_opt s = (case s of None \<Rightarrow> False | Some i \<Rightarrow> truthy i)"

text \<open>A possibly undefined string used as a property name (\<^verbatim>\<open>obj[undefined]\<close> is the
  property \<^verbatim>\<open>"undefined"\<close>) and as a value.\<close>

definition prop_name :: "string option \<Rightarrow> string" where
  "prop_name s = (case s of None \<Rightarrow> ''undefined'' | Some i \<Rightarrow> i)"

definition str_val :: "string option \<Rightarrow> jsval" where
  "str_val s = (case s of None \<Rightarrow> Undefined | Some i \<Rightarrow> Str i)"

section \<open>The document store behind the adapter\<close>

text \<open>
  The MongoDB driver is an external collaborator; the adapter is verified against this
  model of it. A collection is the list of its documents in insertion order. The driver
  writes \<^verbatim>\<open>undefined\<close> as null, a filter \<^verbatim>\<open>{k: v}\<close> matches a document whose field \<open>k\<close>
  equals \<open>v\<close> (a missing field reads as null), and server-assigned \<^verbatim>\<open>_id\<close>s are left out.
  Values compare as in BSON: null, then numbers, then strings.
\<close>

definition bson :: "jsval \<Rightarrow> jsval" where
  "bson v = (if v = Undefined then Null else v)"

definition to_bson :: "document \<Rightarrow> document" where
  "to_bson d = map (\<lambda>(k, v). (k, bson v)) d"

definition fld :: "document \<Rightarrow> string \<Rightarrow> jsval" where
  "fld d k = bson (js_get d k)"

definition matches :: "document \<Rightarrow> document \<Rightarrow> bool" where
  "matches flt d = list_all (\<lambda>(k, v). fld d k = bson v) flt"

fun bson_key :: "jsval \<Rightarrow> nat \<times> int \<times> string" where
  "bson_key Undefined = (0, 0, [])"
| "bson_key Null = (0, 0, [])"
| "bson_key (Num n) = (1, n, [])"
| "bson_key (Str s) = (2, 0, s)"

definition block_ts :: "document \<Rightarrow> nat \<times> int \<times> string" where
  "block_ts d = bson_key (js_get d ''_block_ts'')"

text \<open>\<^verbatim>\<open>{ sort: { _block_ts: -1 } }\<close> and the \<^verbatim>\<open>$sort\<close> stage: descending, ties in stored order.\<close>

definition sort_block_ts_desc :: "document list \<Rightarrow> document list" where
  "sort_block_ts_desc docs = rev (sort_key block_ts (rev docs))"

definition findOne :: "document \<Rightarrow> document list \<Rightarrow> document option" where
  "findOne flt docs =
     (case sort_block_ts_desc (filter (matches flt) docs) of [] \<Rightarrow> None | d # _ \<Rightarrow> Some d)"

text \<open>\<^verbatim>\<open>replaceOne(filter, replacement, { upsert: true })\<close>.\<close>

fun replaceOne :: "document \<Rightarrow> document \<Rightarrow> document list \<Rightarrow> document list" where
  "replaceOne flt r [] = [to_bson r]"
| "replaceOne flt r (d # ds) =
     (if matches flt d then to_bson r # ds else d # replaceOne flt r ds)"

fun deleteOne :: "document \<Rightarrow> document list \<Rightarrow> document list" where
  "deleteOne flt [] = []"
| "deleteOne flt (d # ds) = (if matches flt d then ds else d # deleteOne flt ds)"

definition deleteMany :: "document \<Rightarrow> document list \<Rightarrow> document list" where
  "deleteMany flt docs = filter (\<lambda>d. \<not> matches flt d) docs"

datatype bulk_op = ReplaceOne document document | DeleteMany document

fun apply_bulk_op :: "document list \<Rightarrow> bulk_op \<Rightarrow> document list" where
  "apply_bulk_op docs (ReplaceOne flt r) = replaceOne flt r docs"
| "apply_bulk_op docs (DeleteMany flt) = deleteMany flt docs"

text \<open>\<^verbatim>\<open>bulkWrite(ops, { ordered: false })\<close>: an unordered bulk write is not applied in the
  order of its operation array. The driver sends the operations grouped by kind and the
  server is free to apply them in any order; \<open>order\<close> is the order taken, a rearrangement
  of the array.\<close>

definition bulkWrite ::
  "(bulk_op list \<Rightarrow> bulk_op list) \<Rightarrow> bulk_op list \<Rightarrow> document list \<Rightarrow> document list" where
  "bulkWrite order ops docs = foldl apply_bulk_op docs (order ops)"

text \<open>One such order: the replacements before the deletions, each kind in array order, which
  is how the driver groups an unordered bulk.\<close>

fun is_replace :: "bulk_op \<Rightarrow> bool" where
  "is_replace (ReplaceOne flt r) = True"
| "is_replace (DeleteMany flt) = False"

definition updatesFirst :: "bulk_op list \<Rightarrow> bulk_op list" where
  "updatesFirst ops = filter is_replace ops @ filter (\<lambda>op. \<not> is_replace op) ops"

text \<open>The id an operation is aimed at, and whether the operation stays within that id: its
  filter names an id, and a replacement carries the id its filter names.\<close>

definition op_id :: "bulk_op \<Rightarrow> jsval" where
  "op_id op = (case op of ReplaceOne flt r \<Rightarrow> bson (js_get flt ''id'')
               | DeleteMany flt \<Rightarrow> bson (js_get flt ''id''))"

definition keyed :: "bulk_op \<Rightarrow> bool" where
  "keyed op = (case op of
       ReplaceOne flt r \<Rightarrow> map_of flt ''id'' \<noteq> None \<and> fld r ''id'' = bson (js_get flt ''id'')
     | DeleteMany flt \<Rightarrow> map_of flt ''id'' \<noteq> None)"

text \<open>The aggregation of \<^verbatim>\<open>get\<close>: \<^verbatim>\<open>$sort\<close> descending on \<^verbatim>\<open>_block_ts\<close>, \<^verbatim>\<open>$group\<close> on
  \<^verbatim>\<open>$id\<close> keeping \<^verbatim>\<open>$first\<close>, \<^verbatim>\<open>$replaceRoot\<close>; groups come out in order of first appearance.\<close>

fun group_first :: "document list \<Rightarrow> document list" where
  "group_first [] = []"
| "group_first (d # ds) = d # group_first (filter (\<lambda>e. fld e ''id'' \<noteq> fld d ''id'') ds)"

definition latest_per_id :: "document list \<Rightarrow> document list" where
  "latest_per_id docs = group_first (sort_block_ts_desc docs)"

text \<open>A value that should be a document: awaited (a document or null), or the promise
  itself when the \<^verbatim>\<open>await\<close> is missing. A promise is an object, so it is truthy, and it has
  no properties of its own: handed to the driver as a filter it is the empty filter.\<close>

datatype handle = Awaited "document option" | Promise "document option"

fun truthy_handle :: "handle \<Rightarrow> bool" where
  "truthy_handle (Awaited None) = False"
| "truthy_handle (Awaited (Some d)) = True"
| "truthy_handle (Promise r) = True"

fun as_filter :: "handle \<Rightarrow> document" where
  "as_filter (Awaited None) = []"
| "as_filter (Awaited (Some d)) = d"
| "as_filter (Promise r) = []"

section \<open>Engine state\<close>

record Flags =
  cleanup :: bool

record Engine =
  newDb :: bool
  warmDb :: bool
  readOnly :: bool
  flags :: Flags
  startBlocks :: "int \<rightharpoonup> int"
  latestBlocks :: "int \<rightharpoonup> int"

section \<open>The Mongo adapter\<close>

text \<open>The durable writes the adapter issues, in order. \<open>bulkOrder\<close> is the order in which
  the database applies the operations of an unordered bulk write.\<close>

datatype db_write =
    W_replaceOne string document document
  | W_deleteOne string handle
  | W_bulkWrite string "bulk_op list"

type_synonym KV = "string \<rightharpoonup> (string \<times> document) list"

record Mongo =
  kv :: KV
  engine :: Engine
  mutable :: bool
  db :: "string \<Rightarrow> document list"
  writes :: "db_write list"
  bulkOrder :: "bulk_op list \<Rightarrow> bulk_op list"

datatype error = NotFound

datatype found = One document | Many "document list"

text \<open>\<^verbatim>\<open>this.kv[ref] || {}\<close> and \<^verbatim>\<open>this.kv[ref]?.[id]\<close>.\<close>

definition kv_inner :: "KV \<Rightarrow> string \<Rightarrow> (string \<times> document) list" where
  "kv_inner m r = (case m r of None \<Rightarrow> [] | Some c \<Rightarrow> c)"

definition kv_lookup :: "KV \<Rightarrow> string \<Rightarrow> string \<Rightarrow> document option" where
  "kv_lookup m r i = (case m r of None \<Rightarrow> None | Some c \<Rightarrow> map_of c i)"

definition reads_through :: "Engine \<Rightarrow> string \<Rightarrow> bool" where
  "reads_through e r = (\<not> newDb e \<and> (\<not> warmDb e \<or> r = ''__meta__''))"

definition batchSize :: nat where
  "batchSize = 5000"

text \<open>The paging loop of \<^verbatim>\<open>get\<close>: \<^verbatim>\<open>while (skip < totalCountResult)\<close>, each round running the
  aggregation with \<^verbatim>\<open>$skip\<close> and \<^verbatim>\<open>$limit\<close>.\<close>

function paged :: "document list \<Rightarrow> nat \<Rightarrow> nat \<Rightarrow> document list \<Rightarrow> document list" where
  "paged docs totalCount skip result =
     (if skip < totalCount
      then paged docs totalCount (skip + batchSize)
             (result @ take batchSize (drop skip (latest_per_id docs)))
      else result)"
  by pat_completeness auto
termination
  by (relation "measure (\<lambda>(docs, totalCount, skip, result). totalCount - skip)")
     (auto simp: batchSize_def)

definition materialised :: "document list \<Rightarrow> document list" where
  "materialised docs = paged docs (length (latest_per_id docs)) 0 []"

definition get :: "string \<Rightarrow> Mongo \<Rightarrow> error + found" where
  "get k s =
     (let r = key_ref k; i = key_id k in
      case (if truthy r \<and> truthy_opt i then kv_lookup (kv s) r (prop_name i) else None) of
        Some v \<Rightarrow> Inr (One v)
      | None \<Rightarrow>
         (case (if truthy r \<and> truthy_opt i \<and> reads_through (engine s) r
                then findOne [(''id'', str_val i)] (db s r) else None) of
            Some d \<Rightarrow> Inr (One d)
          | None \<Rightarrow>
             (if truthy r \<and> \<not> truthy_opt i \<and> reads_through (engine s) r
              then (if \<not> mutable s \<and> r \<noteq> ''__meta__''
                    then (if materialised (db s r) \<noteq> [] then Inr (Many (materialised (db s r)))
                          else Inl NotFound)
                    else (if db s r \<noteq> [] then Inr (Many (db s r)) else Inl NotFound))
              else if truthy r \<and> \<not> truthy_opt i
              then (case kv s r of Some c \<Rightarrow> Inr (Many (map snd c)) | None \<Rightarrow> Inl NotFound)
              else Inl NotFound)))"

text \<open>The filter of a put: by \<^verbatim>\<open>id\<close>, and for an immutable collection also by the block
  fields of the value.\<close>

definition put_filter :: "bool \<Rightarrow> string \<Rightarrow> jsval \<Rightarrow> document \<Rightarrow> document" where
  "put_filter mut r i v =
     (''id'', i) #
     (if mut \<or> r = ''__meta__'' then []
      else [(''_block_ts'', js_get v ''_block_ts''),
            (''_block_num'', js_get v ''_block_num''),
            (''_chain_id'', js_get v ''_chain_id'')])"

definition put :: "string \<Rightarrow> document \<Rightarrow> Mongo \<Rightarrow> bool \<times> Mongo" where
  "put k v s =
     (let r = key_ref k; i = key_id k;
          s1 = s\<lparr>kv := (kv s)(r \<mapsto> kv_inner (kv s) r)\<rparr>
      in if truthy r \<and> truthy_opt i
         then (let s2 = s1\<lparr>kv := (kv s1)(r \<mapsto> AList.update (prop_name i) v (kv_inner (kv s1) r))\<rparr>
               in if \<not> readOnly (engine s2)
                  then (True, s2\<lparr>db := (db s2)(r := replaceOne (put_filter (mutable s2) r (str_val i) v) v (db s2 r)),
                                 writes := writes s2 @ [W_replaceOne r (put_filter (mutable s2) r (str_val i) v) v]\<rparr>)
                  else (True, s2))
         else (True, s1))"

text \<open>In \<^verbatim>\<open>del\<close> the result of \<^verbatim>\<open>collection.findOne\<close> is not awaited: \<^verbatim>\<open>document\<close> is the
  promise.\<close>

definition del :: "string \<Rightarrow> Mongo \<Rightarrow> bool \<times> Mongo" where
  "del k s =
     (let r = key_ref k; i = key_id k;
          s1 = s\<lparr>kv := (kv s)(r \<mapsto> kv_inner (kv s) r)\<rparr>
      in if truthy r \<and> truthy_opt i
         then (let s2 = s1\<lparr>kv := (kv s1)(r \<mapsto> AList.delete (prop_name i) (kv_inner (kv s1) r))\<rparr>
               in if \<not> readOnly (engine s2)
                  then (let document = Promise (findOne [(''id'', str_val i)] (db s2 r))
                        in if truthy_handle document
                           then (True, s2\<lparr>db := (db s2)(r := deleteOne (as_filter document) (db s2 r)),
                                          writes := writes s2 @ [W_deleteOne r document]\<rparr>)
                           else (True, s2))
                  else (True, s2))
         else (True, s1))"

datatype op_type = PutOp | DelOp

record BatchOp =
  type' :: op_type
  key :: string
  value' :: "document option"

text \<open>First pass of \<^verbatim>\<open>batch\<close>: group the operations by collection, in order of first
  appearance (\<^verbatim>\<open>Object.keys\<close> lists integer-like names first; such names are not modelled); only \<^verbatim>\<open>del\<close>s and \<^verbatim>\<open>put\<close>s with a value are collected, and only for those is
  the cache entry of the collection created.\<close>

definition collect :: "(string \<times> BatchOp list) list \<times> KV \<Rightarrow> BatchOp \<Rightarrow> (string \<times> BatchOp list) list \<times> KV" where
  "collect acc val =
     (let collected = fst acc; m = snd acc; r = key_ref (key val);
          collected1 = (case map_of collected r of None \<Rightarrow> AList.update r [] collected
                        | Some _ \<Rightarrow> collected)
      in if type' val = DelOp \<or> value' val \<noteq> None
         then (AList.update r ((case map_of collected1 r of None \<Rightarrow> [] | Some l \<Rightarrow> l) @ [val]) collected1,
               m(r \<mapsto> kv_inner m r))
         else (collected1, m))"

text \<open>The replacement of a batched put: every property but \<^verbatim>\<open>_id\<close>, then the three block
  fields read from the value.\<close>

definition strip_id :: "document \<Rightarrow> document" where
  "strip_id v =
     foldl (\<lambda>carr k. if k \<noteq> ''_id'' then AList.update k (js_get v k) carr else carr) [] (map fst v)"

definition replacement :: "document option \<Rightarrow> document" where
  "replacement vo =
     (let v = (case vo of None \<Rightarrow> [] | Some d \<Rightarrow> d) in
      AList.update ''_chain_id'' (js_get v ''_chain_id'')
        (AList.update ''_block_num'' (js_get v ''_block_num'')
           (AList.update ''_block_ts'' (js_get v ''_block_ts'') (strip_id v))))"

text \<open>Second pass, per collection: one bulk operation per collected op, the cache updated
  on the way.\<close>

definition assemble :: "bool \<Rightarrow> string \<Rightarrow> bulk_op list \<times> KV \<Rightarrow> BatchOp \<Rightarrow> bulk_op list \<times> KV" where
  "assemble mut collection acc val =
     (let i = key_id (key val);
          v = (case value' val of None \<Rightarrow> [] | Some d \<Rightarrow> d);
          acc1 = (if type' val = PutOp
                  then (fst acc @ [ReplaceOne (put_filter mut collection (str_val i) v) (replacement (value' val))],
                        (snd acc)(collection \<mapsto>
                           AList.update (prop_name i) (replacement (value' val)) (kv_inner (snd acc) collection)))
                  else acc)
      in if type' val = DelOp
         then (fst acc1 @ [DeleteMany [(''id'', str_val i)]],
               (snd acc1)(collection \<mapsto> AList.delete (prop_name i) (kv_inner (snd acc1) collection)))
         else acc1)"

definition batch_collection :: "Mongo \<Rightarrow> string \<times> BatchOp list \<Rightarrow> Mongo" where
  "batch_collection s c =
     (let collection = fst c;
          res = foldl (assemble (mutable s) collection) ([], kv s) (snd c);
          s1 = s\<lparr>kv := snd res\<rparr>
      in if \<not> readOnly (engine s1) \<and> fst res \<noteq> []
         then s1\<lparr>db := (db s1)(collection := bulkWrite (bulkOrder s1) (fst res) (db s1 collection)),
                 writes := writes s1 @ [W_bulkWrite collection (fst res)]\<rparr>
         else s1)"

definition batch :: "BatchOp list \<Rightarrow> Mongo \<Rightarrow> bool \<times> Mongo" where
  "batch vals s =
     (let grouped = foldl collect ([], kv s) vals
      in (True, foldl batch_collection (s\<lparr>kv := snd grouped\<rparr>) (fst grouped)))"

text \<open>What \<^verbatim>\<open>batch\<close> amounts to, per collection: the operations that are collected,
  the bulk operation and the cache update of each, and the collections in order of first
  appearance.\<close>

definition survives :: "BatchOp \<Rightarrow> bool" where
  "survives val = (type' val = DelOp \<or> value' val \<noteq> None)"

definition ops_for :: "string \<Rightarrow> BatchOp list \<Rightarrow> BatchOp list" where
  "ops_for r vals = filter (\<lambda>val. key_ref (key val) = r \<and> survives val) vals"

definition bulk_of :: "bool \<Rightarrow> string \<Rightarrow> BatchOp \<Rightarrow> bulk_op" where
  "bulk_of mut c val =
     (if type' val = PutOp
      then ReplaceOne (put_filter mut c (str_val (key_id (key val)))
                         (case value' val of None \<Rightarrow> [] | Some d \<Rightarrow> d))
                      (replacement (value' val))
      else DeleteMany [(''id'', str_val (key_id (key val)))])"

definition kv_step :: "(string \<times> document) list \<Rightarrow> BatchOp \<Rightarrow> (string \<times> document) list" where
  "kv_step c val =
     (if type' val = PutOp
      then AList.update (prop_name (key_id (key val))) (replacement (value' val)) c
      else AList.delete (prop_name (key_id (key val))) c)"

fun first_seen :: "string list \<Rightarrow> string list" where
  "first_seen [] = []"
| "first_seen (r # rs) = r # first_seen (filter (\<lambda>x. x \<noteq> r) rs)"

definition refs_of :: "BatchOp list \<Rightarrow> string list" where
  "refs_of vals = first_seen (map (\<lambda>val. key_ref (key val)) vals)"

subsection \<open>Example values\<close>

text \<open>An engine with every flag unset and an empty immutable store, whose bulk writes apply
  replacements before deletions.\<close>

definition engine0 :: Engine where
  "engine0 = \<lparr>newDb = False, warmDb = False, readOnly = False, flags = \<lparr>cleanup = False\<rparr>,
              startBlocks = Map.empty, latestBlocks = Map.empty\<rparr>"

definition store0 :: Mongo where
  "store0 = \<lparr>kv = Map.empty, engine = engine0, mutable = False, db = (\<lambda>_. []), writes = [],
             bulkOrder = updatesFirst\<rparr>"

text \<open>A value as the engine writes it to an immutable collection: no \<^verbatim>\<open>_id\<close>, and the three
  block fields present.\<close>

definition versioned :: "document \<Rightarrow> bool" where
  "versioned v =
     (distinct (map fst v) \<and> ''_id'' \<notin> set (map fst v) \<and> ''_block_ts'' \<in> set (map fst v)
      \<and> ''_block_num'' \<in> set (map fst v) \<and> ''_chain_id'' \<in> set (map fst v))"

text \<open>An example version of entity \<open>i\<close> written at block time \<open>ts\<close>.\<close>

definition doc :: "string \<Rightarrow> int \<Rightarrow> document" where
  "doc i ts = [(''id'', Str i), (''_block_ts'', Num ts), (''_block_num'', Num ts), (''_chain_id'', Num 1)]"

section \<open>Staging a block and its receipts\<close>

text \<open>
  The provider and the disk are external: a provider answers \<^verbatim>\<open>getBlockByNumber\<close> with a block
  and answers the receipt requests for a transaction hash with a sequence of replies, each
  a fault (an exception, or no receipt) or a receipt with its \<^verbatim>\<open>transactionHash\<close>;
  \<^verbatim>\<open>saveJSON(dir, chainId-id, ...)\<close> always succeeds and is recorded as the artefact written.
\<close>

record Tx =
  hash :: string

record Block =
  number' :: int
  transactions :: "Tx list"

datatype reply = Fault | Receipt string

record Provider =
  blockAt :: "int \<Rightarrow> Block"
  receiptReplies :: "string \<Rightarrow> reply list"

datatype artefact = Blocks int int | Transactions int string | BlockAndReceipts int int

text \<open>\<^verbatim>\<open>getTransactionReceipt\<close> retries until a receipt with a transaction hash arrives; \<open>None\<close>
  when the replies run out before that (it is still retrying). The result is the
  \<^verbatim>\<open>transactionHash\<close> of the merged response.\<close>

fun getTransactionReceipt :: "reply list \<Rightarrow> Tx \<Rightarrow> string option" where
  "getTransactionReceipt [] tx = None"
| "getTransactionReceipt (Fault # rs) tx = getTransactionReceipt rs tx"
| "getTransactionReceipt (Receipt h # rs) tx =
     (if \<not> truthy h \<or> \<not> truthy (hash tx) then getTransactionReceipt rs tx else Some h)"

text \<open>\<^verbatim>\<open>getReceipt\<close>: the receipt, then the \<^verbatim>\<open>transactions\<close> artefact unless \<^verbatim>\<open>flags.cleanup\<close> is
  set. Its own \<^verbatim>\<open>Missing hash\<close> check cannot fire, since \<^verbatim>\<open>getTransactionReceipt\<close> returns only a
  receipt with a hash. \<^verbatim>\<open>getReceipts\<close> is the \<^verbatim>\<open>Promise.all\<close> over the block's transactions, taken
  one after the other.\<close>

definition getReceipt :: "Engine \<Rightarrow> Provider \<Rightarrow> int \<Rightarrow> Tx \<Rightarrow> artefact list \<Rightarrow> (string \<times> artefact list) option" where
  "getReceipt e provider c tx disk =
     (case getTransactionReceipt (receiptReplies provider (hash tx)) tx of
        None \<Rightarrow> None
      | Some fullTx \<Rightarrow>
          Some (fullTx, if \<not> cleanup (flags e) then disk @ [Transactions c fullTx] else disk))"

fun getReceipts :: "Engine \<Rightarrow> Provider \<Rightarrow> int \<Rightarrow> Tx list \<Rightarrow> artefact list \<Rightarrow> (string list \<times> artefact list) option" where
  "getReceipts e provider c [] disk = Some ([], disk)"
| "getReceipts e provider c (tx # txs) disk =
     (case getReceipt e provider c tx disk of
        None \<Rightarrow> None
      | Some (r, disk1) \<Rightarrow>
          (case getReceipts e provider c txs disk1 of
             None \<Rightarrow> None
           | Some (rs, disk2) \<Rightarrow> Some (r # rs, disk2)))"

definition awaitListenerBlockAndReceipts :: "Engine \<Rightarrow> Provider \<Rightarrow> int \<Rightarrow> int \<Rightarrow> artefact list \<Rightarrow> artefact list option" where
  "awaitListenerBlockAndReceipts e provider n c disk =
     (let block = blockAt provider n in
      case getReceipts e provider c (transactions block) disk of
        None \<Rightarrow> None
      | Some (receipts, disk1) \<Rightarrow>
          (let disk2 = (if \<not> cleanup (flags e) then disk1 @ [Blocks c (number' block)] else disk1)
           in Some (disk2 @ [BlockAndReceipts c (number' block)])))"

section \<open>The block queue and its dispatcher\<close>

record Migration =
  entity :: "string option"

record QueueEntry =
  number :: int
  chainId :: int
  asyncParts :: nat
  asyncEntities :: "string option list"

record AsyncBlockParts =
  cancelled :: bool

text \<open>What the dispatcher does with a block, in order: the staged data is read back, the
  timeout is armed, \<^verbatim>\<open>processListenerBlock\<close> is called.\<close>

datatype event = ReadStaged int int nat | TimeoutArmed int int | Processed int int

text \<open>The dispatcher's world: the queue, the engine, the staging runs started so far (a
  queue entry's \<^verbatim>\<open>asyncParts\<close> is the index of its run), the events so far, and the blocks
  whose processing is still running although the dispatcher has moved on, oldest first. A
  staging run always resolves to its reader: the fetch layer retries and the disk is taken
  as reliable.\<close>

record World =
  blockQueue :: "QueueEntry list"
  theEngine :: Engine
  staged :: "(int \<times> int) list"
  events :: "event list"
  running :: "QueueEntry list"

datatype js_error = TypeError

datatype outcome = Returned | Threw

definition recordListenerBlock :: "int \<Rightarrow> int \<Rightarrow> (int \<times> int \<rightharpoonup> Migration list) \<Rightarrow> World \<Rightarrow> World" where
  "recordListenerBlock n c indexedMigrations w =
     w\<lparr>blockQueue := blockQueue w @
          [\<lparr>number = n, chainId = c, asyncParts = length (staged w),
            asyncEntities = (case indexedMigrations (c, n) of None \<Rightarrow> [] | Some ms \<Rightarrow> map entity ms)\<rparr>],
       staged := staged w @ [(n, c)]\<rparr>"

definition restackListenerBlock :: "int \<Rightarrow> int \<Rightarrow> string option list \<Rightarrow> World \<Rightarrow> World" where
  "restackListenerBlock n c ae w =
     w\<lparr>blockQueue := \<lparr>number = n, chainId = c, asyncParts = length (staged w), asyncEntities = ae\<rparr>
          # blockQueue w,
       staged := staged w @ [(n, c)]\<rparr>"

text \<open>\<^verbatim>\<open>processListenerBlock\<close> is external: \<open>handler\<close> gives, for a block and the engine, whether
  it returned or threw and the engine it leaves. \<^verbatim>\<open>startProcessingBlock\<close> awaits it, and the
  model splits the function at that await: \<open>startProcessingBlock\<close> is the call, which hands
  the block to the handler, and \<open>endProcessingBlock\<close> is what follows the handler's return or
  throw, run against the world as it is by then. \<open>vals\<close> is what \<^verbatim>\<open>await blockAndReceipts\<close>
  yields there: \<open>None\<close> for the \<^verbatim>\<open>false\<close> of a failed read, \<^verbatim>\<open>cancelled\<close> set when the timeout
  arm has fired.\<close>

definition cancelledOn :: "AsyncBlockParts option \<Rightarrow> bool" where
  "cancelledOn vals = (case vals of None \<Rightarrow> False | Some p \<Rightarrow> cancelled p)"

definition startProcessingBlock :: "int \<Rightarrow> int \<Rightarrow> World \<Rightarrow> World" where
  "startProcessingBlock n c w = w\<lparr>events := events w @ [Processed n c]\<rparr>"

definition endProcessingBlock ::
  "(int \<Rightarrow> int \<Rightarrow> Engine \<Rightarrow> outcome \<times> Engine) \<Rightarrow> int \<Rightarrow> int \<Rightarrow> string option list \<Rightarrow>
   AsyncBlockParts option \<Rightarrow> World \<Rightarrow> World" where
  "endProcessingBlock handler n c ae vals w =
     (let res = handler n c (theEngine w);
          w1 = w\<lparr>theEngine := snd res\<rparr>
      in case fst res of
           Threw \<Rightarrow> restackListenerBlock n c ae w1
         | Returned \<Rightarrow>
             if cancelledOn vals then restackListenerBlock n c ae w1 else w1)"

text \<open>\<^verbatim>\<open>processListenerBlockSafely\<close>: past the guard, the staged data is read, and the timeout
  and the processing are raced. \<^verbatim>\<open>Promise.race\<close> resolves with the first of its arms, and
  the other arm goes on. Here \<open>vals\<close> is the parts as they are when the race is decided:
  with \<^verbatim>\<open>cancelled\<close> set the timeout arm has fired first, the call returns while the handler
  is still running, and the block joins \<open>running\<close>; otherwise the processing arm has ended
  first.\<close>

definition processListenerBlockSafely ::
  "(int \<Rightarrow> int \<Rightarrow> Engine \<Rightarrow> outcome \<times> Engine) \<Rightarrow> int \<Rightarrow> int \<Rightarrow> nat \<Rightarrow> string option list \<Rightarrow>
   AsyncBlockParts option \<Rightarrow> World \<Rightarrow> js_error + World" where
  "processListenerBlockSafely handler n c parts ae vals w =
     (case startBlocks (theEngine w) c of
        None \<Rightarrow> Inr w
      | Some start \<Rightarrow>
          if start \<noteq> 0 \<and> n \<ge> start
          then (case latestBlocks (theEngine w) c of
                  None \<Rightarrow> Inl TypeError
                | Some latest \<Rightarrow>
                    if n \<ge> latest
                    then (let w1 = startProcessingBlock n c
                                     (w\<lparr>events := events w @ [ReadStaged n c parts, TimeoutArmed n c]\<rparr>)
                          in if cancelledOn vals
                             then Inr (w1\<lparr>running := running w1 @
                                         [\<lparr>number = n, chainId = c, asyncParts = parts,
                                           asyncEntities = ae\<rparr>]\<rparr>)
                             else Inr (endProcessingBlock handler n c ae vals w1))
                    else Inr w)
          else Inr w)"

text \<open>The processing of the oldest running block comes to its end, after its timeout: the
  rest of \<^verbatim>\<open>startProcessingBlock\<close> runs against the queue as it is now.\<close>

definition armEnds ::
  "(int \<Rightarrow> int \<Rightarrow> Engine \<Rightarrow> outcome \<times> Engine) \<Rightarrow> AsyncBlockParts option \<Rightarrow> World \<Rightarrow> World" where
  "armEnds handler vals w =
     (case running w of
        [] \<Rightarrow> w
      | a # rest \<Rightarrow>
          endProcessingBlock handler (number a) (chainId a) (asyncEntities a) vals
            (w\<lparr>running := rest\<rparr>))"

text \<open>The gap-filling loop of \<^verbatim>\<open>attemptNextBlock\<close>:
  \<^verbatim>\<open>while (latestBlockNumber !== blockQueue[0].number) recordListenerBlock(latestBlockNumber += 1, ...)\<close>.\<close>

partial_function (option) fillGap ::
  "int \<Rightarrow> int \<Rightarrow> int \<Rightarrow> (int \<times> int \<rightharpoonup> Migration list) \<Rightarrow> World \<Rightarrow> World option" where
  "fillGap latestBlockNumber head c indexedMigrations w =
     (if latestBlockNumber \<noteq> head
      then fillGap (latestBlockNumber + 1) head c indexedMigrations
             (recordListenerBlock (latestBlockNumber + 1) c indexedMigrations w)
      else Some w)"

definition attemptNextBlock ::
  "(int \<Rightarrow> int \<Rightarrow> Engine \<Rightarrow> outcome \<times> Engine) \<Rightarrow> (int \<times> int \<rightharpoonup> Migration list) \<Rightarrow>
   AsyncBlockParts option \<Rightarrow> World \<Rightarrow> (js_error + World) option" where
  "attemptNextBlock handler indexedMigrations vals w =
     (case blockQueue w of
        [] \<Rightarrow> Some (Inl TypeError)
      | first # _ \<Rightarrow>
          (case latestBlocks (theEngine w) (chainId first) of
             None \<Rightarrow> Some (Inl TypeError)
           | Some latestBlock \<Rightarrow>
               (case (if number first - latestBlock > 1
                      then fillGap latestBlock (number first) (chainId first) indexedMigrations w
                      else Some w) of
                  None \<Rightarrow> None
                | Some w1 \<Rightarrow>
                    (case blockQueue w1 of
                       [] \<Rightarrow> Some (Inl TypeError)
                     | nxt # rest \<Rightarrow>
                         Some (processListenerBlockSafely handler (number nxt) (chainId first)
                                 (asyncParts nxt) (asyncEntities nxt) vals
                                 (w1\<lparr>blockQueue := rest\<rparr>))))))"

text \<open>The example of a listener event for block 105 on chain 1, queued and being staged,
  while the latest block of the chain is 100.\<close>

definition world0 :: World where
  "world0 = \<lparr>blockQueue = [\<lparr>number = 105, chainId = 1, asyncParts = 0, asyncEntities = []\<rparr>],
             theEngine = engine0\<lparr>startBlocks := [1 \<mapsto> 1], latestBlocks := [1 \<mapsto> 100]\<rparr>,
             staged = [(105, 1)], events = [], running = []\<rparr>"

text \<open>The dispatcher loop with no further listener event: attempt the next block while the
  queue holds one, at most \<open>fuel\<close> times.\<close>

fun dispatch ::
  "nat \<Rightarrow> (int \<Rightarrow> int \<Rightarrow> Engine \<Rightarrow> outcome \<times> Engine) \<Rightarrow> (int \<times> int \<rightharpoonup> Migration list) \<Rightarrow>
   AsyncBlockParts option \<Rightarrow> World \<Rightarrow> (js_error + World) option" where
  "dispatch 0 handler indexedMigrations vals w = Some (Inr w)"
| "dispatch (Suc fuel) handler indexedMigrations vals w =
     (if blockQueue w \<noteq> []
      then (case attemptNextBlock handler indexedMigrations vals w of
              Some (Inr w1) \<Rightarrow> dispatch fuel handler indexedMigrations vals w1
            | r \<Rightarrow> r)
      else Some (Inr w))"

text \<open>Modelled from the spec: \<^verbatim>\<open>processListenerBlock\<close> is not among the sources; the spec has the
  engine state advance to the processed block (\<^verbatim>\<open>latestBlocks\<close> is the last-processed block
  per chain).\<close>

definition advance :: "int \<Rightarrow> int \<Rightarrow> Engine \<Rightarrow> outcome \<times> Engine" where
  "advance n c e = (Returned, e\<lparr>latestBlocks := (latestBlocks e)(c \<mapsto> n)\<rparr>)"

text \<open>A handler that throws on block \<open>m\<close>, leaving the engine as it was, and advances on
  every other block.\<close>

definition failsOn :: "int \<Rightarrow> int \<Rightarrow> int \<Rightarrow> Engine \<Rightarrow> outcome \<times> Engine" where
  "failsOn m n c e = (if n = m then (Threw, e) else advance n c e)"

text \<open>A run of the listener: the dispatcher attempts the next block, or the processing of
  the oldest running block ends; each step with the parts as they are found then.\<close>

datatype action = NextBlock "AsyncBlockParts option" | ArmEnds "AsyncBlockParts option"

fun run ::
  "(int \<Rightarrow> int \<Rightarrow> Engine \<Rightarrow> outcome \<times> Engine) \<Rightarrow> (int \<times> int \<rightharpoonup> Migration list) \<Rightarrow>
   action list \<Rightarrow> World \<Rightarrow> (js_error + World) option" where
  "run handler indexedMigrations [] w = Some (Inr w)"
| "run handler indexedMigrations (NextBlock vals # acts) w =
     (case attemptNextBlock handler indexedMigrations vals w of
        Some (Inr w1) \<Rightarrow> run handler indexedMigrations acts w1
      | r \<Rightarrow> r)"
| "run handler indexedMigrations (ArmEnds vals # acts) w =
     run handler indexedMigrations acts (armEnds handler vals w)"

text \<open>Blocks 200 and 201 of chain 1 queued and being staged, the latest block being 199.\<close>

definition world1 :: World where
  "world1 = \<lparr>blockQueue = [\<lparr>number = 200, chainId = 1, asyncParts = 0, asyncEntities = []\<rparr>,
                           \<lparr>number = 201, chainId = 1, asyncParts = 1, asyncEntities = []\<rparr>],
             theEngine = engine0\<lparr>startBlocks := [1 \<mapsto> 1], latestBlocks := [1 \<mapsto> 199]\<rparr>,
             staged = [(200, 1), (201, 1)], events = [], running = []\<rparr>"

section \<open>Properties\<close>

lemma split_dot_nonempty: "split_dot k \<noteq> []"
  by (induction k) (auto split: list.splits)

subsection \<open>The batch, collection by collection\<close>

lemma assemble_eq:
  "assemble mut c (b, m) val = (b @ [bulk_of mut c val], m(c \<mapsto> kv_step (kv_inner m c) val))"
  by (cases "type' val") (simp_all add: assemble_def bulk_of_def kv_step_def Let_def)

lemma kv_inner_upd [simp]: "kv_inner (m(c \<mapsto> x)) c = x"
  by (simp add: kv_inner_def)

lemma foldl_assemble:
  "foldl (assemble mut c) (b, m) ops =
     (b @ map (bulk_of mut c) ops,
      if ops = [] then m else m(c \<mapsto> foldl kv_step (kv_inner m c) ops))"
proof (induction ops arbitrary: b m)
  case Nil
  then show ?case by simp
next
  case (Cons val ops)
  show ?case
    by (cases "ops = []") (auto simp: assemble_eq Cons.IH fun_eq_iff)
qed

lemma batch_collection_eq:
  "batch_collection s (c, ops) =
     (if ops = [] then s
      else if readOnly (engine s)
      then s\<lparr>kv := (kv s)(c \<mapsto> foldl kv_step (kv_inner (kv s) c) ops)\<rparr>
      else s\<lparr>kv := (kv s)(c \<mapsto> foldl kv_step (kv_inner (kv s) c) ops),
             db := (db s)(c := bulkWrite (bulkOrder s) (map (bulk_of (mutable s) c) ops) (db s c)),
             writes := writes s @ [W_bulkWrite c (map (bulk_of (mutable s) c) ops)]\<rparr>)"
  by (simp add: batch_collection_def foldl_assemble Let_def)

lemma batch_collection_frame0:
  "engine (batch_collection s c) = engine s \<and> mutable (batch_collection s c) = mutable s
   \<and> bulkOrder (batch_collection s c) = bulkOrder s"
  by (cases c) (simp add: batch_collection_eq)


lemma foldl_batch_collection_kv:
  "distinct (map fst cs) \<Longrightarrow>
   kv (foldl batch_collection s cs) r =
     (case map_of cs r of None \<Rightarrow> kv s r
      | Some ops \<Rightarrow> if ops = [] then kv s r else Some (foldl kv_step (kv_inner (kv s) r) ops))"
proof (induction cs arbitrary: s)
  case Nil
  then show ?case by simp
next
  case (Cons c cs)
  obtain c' ops where c: "c = (c', ops)" by (cases c)
  from Cons.prems have d: "distinct (map fst cs)" and n: "c' \<notin> fst ` set cs"
    by (auto simp: c)
  from n have m: "map_of cs c' = None" by (simp add: map_of_eq_None_iff)
  show ?case
    using Cons.IH[OF d, of "batch_collection s c"] m
    by (auto simp: c batch_collection_eq kv_inner_def split: option.splits)
qed

lemma foldl_batch_collection_db:
  "distinct (map fst cs) \<Longrightarrow>
   db (foldl batch_collection s cs) r =
     (case map_of cs r of None \<Rightarrow> db s r
      | Some ops \<Rightarrow> if \<not> readOnly (engine s) \<and> ops \<noteq> []
                    then bulkWrite (bulkOrder s) (map (bulk_of (mutable s) r) ops) (db s r) else db s r)"
proof (induction cs arbitrary: s)
  case Nil
  then show ?case by simp
next
  case (Cons c cs)
  obtain c' ops where c: "c = (c', ops)" by (cases c)
  from Cons.prems have d: "distinct (map fst cs)" and n: "c' \<notin> fst ` set cs"
    by (auto simp: c)
  from n have m: "map_of cs c' = None" by (simp add: map_of_eq_None_iff)
  show ?case
    using Cons.IH[OF d, of "batch_collection s c"] m
    by (auto simp: c batch_collection_eq split: option.splits)
qed

lemma batch_collection_frame [simp]:
  "engine (batch_collection s c) = engine s" "mutable (batch_collection s c) = mutable s"
  "bulkOrder (batch_collection s c) = bulkOrder s"
  by (simp_all add: batch_collection_frame0)

lemma batch_collection_writes:
  "writes (batch_collection s c) =
     writes s @ (if readOnly (engine s) \<or> snd c = [] then []
                 else [W_bulkWrite (fst c) (map (bulk_of (mutable s) (fst c)) (snd c))])"
  by (cases c) (simp add: batch_collection_eq)

lemma foldl_batch_collection_writes:
  "writes (foldl batch_collection s cs) =
     writes s @ (if readOnly (engine s) then []
                 else concat (map (\<lambda>c. if snd c = [] then [] else [W_bulkWrite (fst c) (map (bulk_of (mutable s) (fst c)) (snd c))]) cs))"
proof (induction cs arbitrary: s)
  case Nil
  then show ?case by simp
next
  case (Cons c cs)
  show ?case
    by (simp add: Cons.IH batch_collection_writes cong: if_cong)
qed


lemma map_of_graph:
  "map_of (map (\<lambda>r. (r, f r)) ks) r = (if r \<in> set ks then Some (f r) else None)"
  by (induction ks) auto

lemma update_graph:
  "distinct ks \<Longrightarrow>
   AList.update r x (map (\<lambda>r. (r, f r)) ks) =
     map (\<lambda>r'. (r', (f(r := x)) r')) (if r \<in> set ks then ks else ks @ [r])"
  by (induction ks) auto

lemma kv_inner_idem: "kv_inner (m(r \<mapsto> kv_inner m r)) = kv_inner m"
  by (auto simp: kv_inner_def fun_eq_iff)

lemma collect_graph:
  assumes "distinct ks" and "\<forall>r. r \<notin> set ks \<longrightarrow> f r = []"
  shows "collect (map (\<lambda>r. (r, f r)) ks, m) val =
     (map (\<lambda>r. (r, (if survives val then f(key_ref (key val) := f (key_ref (key val)) @ [val]) else f) r))
          (if key_ref (key val) \<in> set ks then ks else ks @ [key_ref (key val)]),
      if survives val then m(key_ref (key val) \<mapsto> kv_inner m (key_ref (key val))) else m)"
proof -
  let ?r = "key_ref (key val)"
  let ?ks = "if ?r \<in> set ks then ks else ks @ [?r]"
  have c1: "(case map_of (map (\<lambda>r. (r, f r)) ks) ?r of
               None \<Rightarrow> AList.update ?r [] (map (\<lambda>r. (r, f r)) ks)
             | Some _ \<Rightarrow> map (\<lambda>r. (r, f r)) ks) = map (\<lambda>r. (r, f r)) ?ks"
    using assms by (auto simp: map_of_graph update_graph)
  have d: "distinct ?ks" using assms(1) by auto
  have u: "AList.update ?r (f ?r @ [val]) (map (\<lambda>r. (r, f r)) ?ks) =
             map (\<lambda>r. (r, (f(?r := f ?r @ [val])) r)) ?ks"
    using update_graph[OF d, of ?r "f ?r @ [val]" f] by auto
  have l: "(case map_of (map (\<lambda>r. (r, f r)) ?ks) ?r of None \<Rightarrow> [] | Some l \<Rightarrow> l) = f ?r"
    by (simp add: map_of_graph)
  show ?thesis
    unfolding collect_def Let_def fst_conv snd_conv c1 l survives_def[symmetric]
    by (simp add: u del: fun_upd_apply)
qed

lemma foldl_collect_graph:
  assumes "distinct ks" and "\<forall>r. r \<notin> set ks \<longrightarrow> f r = []"
  shows "foldl collect (map (\<lambda>r. (r, f r)) ks, m) vals =
     (map (\<lambda>r. (r, f r @ ops_for r vals))
          (ks @ first_seen (filter (\<lambda>r. r \<notin> set ks) (map (\<lambda>val. key_ref (key val)) vals))),
      (\<lambda>r. if ops_for r vals \<noteq> [] then Some (kv_inner m r) else m r))"
  using assms
proof (induction vals arbitrary: ks f m)
  case Nil
  then show ?case by (simp add: ops_for_def)
next
  case (Cons val vals)
  let ?r = "key_ref (key val)"
  let ?ks = "if ?r \<in> set ks then ks else ks @ [?r]"
  let ?f = "if survives val then f(?r := f ?r @ [val]) else f"
  let ?m = "if survives val then m(?r \<mapsto> kv_inner m ?r) else m"
  have d: "distinct ?ks" using Cons.prems(1) by auto
  have e: "\<forall>r. r \<notin> set ?ks \<longrightarrow> ?f r = []" using Cons.prems(2) by auto
  have keys: "?ks @ first_seen (filter (\<lambda>r. r \<notin> set ?ks) (map (\<lambda>val. key_ref (key val)) vals)) =
              ks @ first_seen (filter (\<lambda>r. r \<notin> set ks) (map (\<lambda>val. key_ref (key val)) (val # vals)))"
    by (simp add: conj_commute)
  have vals: "\<And>r. ?f r @ ops_for r vals = f r @ ops_for r (val # vals)"
    by (auto simp: ops_for_def)
  have kvs: "(\<lambda>r. if ops_for r vals \<noteq> [] then Some (kv_inner ?m r) else ?m r) =
             (\<lambda>r. if ops_for r (val # vals) \<noteq> [] then Some (kv_inner m r) else m r)"
    by (auto simp: fun_eq_iff ops_for_def kv_inner_def)
  show ?case
    unfolding foldl_Cons collect_graph[OF Cons.prems] Cons.IH[OF d e] keys vals kvs ..
qed

lemma grouped_eq:
  "foldl collect ([], m) vals =
     (map (\<lambda>r. (r, ops_for r vals)) (first_seen (map (\<lambda>val. key_ref (key val)) vals)),
      (\<lambda>r. if ops_for r vals \<noteq> [] then Some (kv_inner m r) else m r))"
  using foldl_collect_graph[of "[]" "\<lambda>_. []" m vals] by simp

lemma distinct_first_seen: "distinct (first_seen rs)"
proof (induction rs rule: first_seen.induct)
  case 1
  then show ?case by simp
next
  case (2 r rs)
  have "set (first_seen xs) \<subseteq> set xs" for xs
    by (induction xs rule: first_seen.induct) auto
  from this[of "filter (\<lambda>x. x \<noteq> r) rs"] 2 show ?case by auto
qed

lemma set_first_seen: "set (first_seen rs) = set rs"
  by (induction rs rule: first_seen.induct) auto


lemma map_of_grouped:
  "map_of (map (\<lambda>r. (r, ops_for r vals)) (refs_of vals)) r =
     (if ops_for r vals = [] then (if r \<in> set (refs_of vals) then Some [] else None)
      else Some (ops_for r vals))"
proof -
  have "ops_for r vals \<noteq> [] \<Longrightarrow> r \<in> set (refs_of vals)"
    by (auto simp: refs_of_def set_first_seen ops_for_def filter_empty_conv)
  then show ?thesis by (auto simp: map_of_graph)
qed

lemma batch_kv:
  "kv (snd (batch vals s)) r =
     (if ops_for r vals = [] then kv s r
      else Some (foldl kv_step (kv_inner (kv s) r) (ops_for r vals)))"
proof -
  have d: "distinct (map fst (map (\<lambda>r. (r, ops_for r vals)) (refs_of vals)))"
    by (simp add: comp_def refs_of_def distinct_first_seen)
  show ?thesis
    unfolding batch_def Let_def snd_conv grouped_eq refs_of_def[symmetric] fst_conv
    by (simp add: foldl_batch_collection_kv[OF d] map_of_grouped kv_inner_def)
qed

lemma batch_db:
  "db (snd (batch vals s)) r =
     (if \<not> readOnly (engine s) \<and> ops_for r vals \<noteq> []
      then bulkWrite (bulkOrder s) (map (bulk_of (mutable s) r) (ops_for r vals)) (db s r) else db s r)"
proof -
  have d: "distinct (map fst (map (\<lambda>r. (r, ops_for r vals)) (refs_of vals)))"
    by (simp add: comp_def refs_of_def distinct_first_seen)
  show ?thesis
    unfolding batch_def Let_def snd_conv grouped_eq refs_of_def[symmetric] fst_conv
    by (simp add: foldl_batch_collection_db[OF d] map_of_grouped)
qed

lemma batch_writes:
  "writes (snd (batch vals s)) =
     writes s @ (if readOnly (engine s) then []
                 else map (\<lambda>c. W_bulkWrite c (map (bulk_of (mutable s) c) (ops_for c vals)))
                        (filter (\<lambda>c. ops_for c vals \<noteq> []) (refs_of vals)))"
proof -
  have "concat (map (\<lambda>c. if snd c = [] then [] else [W_bulkWrite (fst c) (map (bulk_of mut (fst c)) (snd c))])
                  (map (\<lambda>r. (r, ops_for r vals)) rs)) =
        map (\<lambda>c. W_bulkWrite c (map (bulk_of mut c) (ops_for c vals)))
          (filter (\<lambda>c. ops_for c vals \<noteq> []) rs)" for mut rs
    by (induction rs) auto
  then show ?thesis
    unfolding batch_def Let_def snd_conv grouped_eq refs_of_def[symmetric] fst_conv
    by (simp add: foldl_batch_collection_writes)
qed


lemma ops_for_filter_survives [simp]: "ops_for r (filter survives vals) = ops_for r vals"
  by (induction vals) (auto simp: ops_for_def)



lemmas model_defs =
  ops_for_def survives_def refs_of_def key_ref_def key_id_def bulk_of_def put_filter_def
  replacement_def strip_id_def js_get_def str_val_def prop_name_def truthy_def truthy_opt_def
  kv_step_def kv_inner_def kv_lookup_def


subsection \<open>Single operations\<close>

lemma put_readOnly:
  "readOnly (engine s) \<Longrightarrow> db (snd (put k v s)) = db s \<and> writes (snd (put k v s)) = writes s"
  by (simp add: put_def Let_def)

lemma del_readOnly:
  "readOnly (engine s) \<Longrightarrow> db (snd (del k s)) = db s \<and> writes (snd (del k s)) = writes s"
  by (simp add: del_def Let_def)

lemma batch_readOnly:
  "readOnly (engine s) \<Longrightarrow> db (snd (batch vals s)) = db s \<and> writes (snd (batch vals s)) = writes s"
  by (simp add: batch_db batch_writes fun_eq_iff)

lemma put_kv:
  "kv (snd (put k v s)) =
     (if truthy (key_ref k) \<and> truthy_opt (key_id k)
      then (kv s)(key_ref k \<mapsto> AList.update (prop_name (key_id k)) v (kv_inner (kv s) (key_ref k)))
      else (kv s)(key_ref k \<mapsto> kv_inner (kv s) (key_ref k)))"
  by (simp add: put_def Let_def)

lemma del_kv:
  "kv (snd (del k s)) =
     (if truthy (key_ref k) \<and> truthy_opt (key_id k)
      then (kv s)(key_ref k \<mapsto> AList.delete (prop_name (key_id k)) (kv_inner (kv s) (key_ref k)))
      else (kv s)(key_ref k \<mapsto> kv_inner (kv s) (key_ref k)))"
  by (simp add: del_def Let_def)

lemma batch_kv_engine: "kv (snd (batch vals (s\<lparr>engine := e\<rparr>))) = kv (snd (batch vals s))"
  by (simp add: fun_eq_iff batch_kv)

text \<open>
  C6. With \<^verbatim>\<open>engine.readOnly\<close> set, \<^verbatim>\<open>put\<close>, \<^verbatim>\<open>del\<close> and \<^verbatim>\<open>batch\<close> leave the documents as
  they are and issue no write, and the cache ends as it does with the flag unset: for a
  key \<^verbatim>\<open>ref.id\<close> the put value is cached and the deleted entry is gone, and \<^verbatim>\<open>batch\<close> leaves
  the cache entry of every collection it has an operation for as its puts and dels leave it,
  taken in order, each put inserting its replacement under its id and each del removing the
  entry of its id, and leaves every other cache entry as it was.
\<close>

theorem readOnly_no_durable_write:
  assumes "readOnly (engine s)"
  shows "db (snd (put k v s)) = db s \<and> writes (snd (put k v s)) = writes s
       \<and> db (snd (del k s)) = db s \<and> writes (snd (del k s)) = writes s
       \<and> db (snd (batch vals s)) = db s \<and> writes (snd (batch vals s)) = writes s
       \<and> kv (snd (put k v s)) = kv (snd (put k v (s\<lparr>engine := (engine s)\<lparr>readOnly := False\<rparr>\<rparr>)))
       \<and> kv (snd (del k s)) = kv (snd (del k (s\<lparr>engine := (engine s)\<lparr>readOnly := False\<rparr>\<rparr>)))
       \<and> kv (snd (batch vals s)) = kv (snd (batch vals (s\<lparr>engine := (engine s)\<lparr>readOnly := False\<rparr>\<rparr>)))
       \<and> (truthy (key_ref k) \<and> truthy_opt (key_id k) \<longrightarrow>
            kv_lookup (kv (snd (put k v s))) (key_ref k) (prop_name (key_id k)) = Some v
            \<and> kv_lookup (kv (snd (del k s))) (key_ref k) (prop_name (key_id k)) = None)
       \<and> (\<forall>r. kv (snd (batch vals s)) r =
              (if ops_for r vals = [] then kv s r
               else Some (foldl kv_step (kv_inner (kv s) r) (ops_for r vals))))
       \<and> kv_lookup (kv (snd (batch (vals @ [\<lparr>type' = PutOp, key = k, value' = Some v\<rparr>]) s)))
            (key_ref k) (prop_name (key_id k)) = Some (replacement (Some v))
       \<and> kv_lookup (kv (snd (batch (vals @ [\<lparr>type' = DelOp, key = k, value' = vd\<rparr>]) s)))
            (key_ref k) (prop_name (key_id k)) = None"
proof -
  have b: "\<forall>r. kv (snd (batch vals s)) r =
              (if ops_for r vals = [] then kv s r
               else Some (foldl kv_step (kv_inner (kv s) r) (ops_for r vals)))"
    by (simp add: batch_kv)
  have p: "kv_lookup (kv (snd (batch (vals @ [\<lparr>type' = PutOp, key = k, value' = Some v\<rparr>]) s)))
            (key_ref k) (prop_name (key_id k)) = Some (replacement (Some v))"
    by (simp add: batch_kv ops_for_def survives_def kv_step_def kv_lookup_def update_conv')
  have d: "kv_lookup (kv (snd (batch (vals @ [\<lparr>type' = DelOp, key = k, value' = vd\<rparr>]) s)))
            (key_ref k) (prop_name (key_id k)) = None"
    by (simp add: batch_kv ops_for_def survives_def kv_step_def kv_lookup_def delete_conv')
  have o: "db (snd (put k v s)) = db s \<and> writes (snd (put k v s)) = writes s
       \<and> db (snd (del k s)) = db s \<and> writes (snd (del k s)) = writes s
       \<and> db (snd (batch vals s)) = db s \<and> writes (snd (batch vals s)) = writes s
       \<and> kv (snd (put k v s)) = kv (snd (put k v (s\<lparr>engine := (engine s)\<lparr>readOnly := False\<rparr>\<rparr>)))
       \<and> kv (snd (del k s)) = kv (snd (del k (s\<lparr>engine := (engine s)\<lparr>readOnly := False\<rparr>\<rparr>)))
       \<and> kv (snd (batch vals s)) = kv (snd (batch vals (s\<lparr>engine := (engine s)\<lparr>readOnly := False\<rparr>\<rparr>)))
       \<and> (truthy (key_ref k) \<and> truthy_opt (key_id k) \<longrightarrow>
            kv_lookup (kv (snd (put k v s))) (key_ref k) (prop_name (key_id k)) = Some v
            \<and> kv_lookup (kv (snd (del k s))) (key_ref k) (prop_name (key_id k)) = None)"
    using put_readOnly[OF assms] del_readOnly[OF assms] batch_readOnly[OF assms]
    by (simp add: put_kv del_kv batch_kv_engine kv_lookup_def update_conv' delete_conv')
  from o b p d show ?thesis by blast
qed

theorem readOnly_no_durable_write_witness:
  "readOnly (engine (store0\<lparr>engine := engine0\<lparr>readOnly := True\<rparr>\<rparr>))
   \<and> db (snd (put ''c.a'' [(''id'', Str ''a'')] (store0\<lparr>engine := engine0\<lparr>readOnly := True\<rparr>\<rparr>))) = db store0
   \<and> writes (snd (batch [\<lparr>type' = DelOp, key = ''c.b'', value' = None\<rparr>] (store0\<lparr>engine := engine0\<lparr>readOnly := True\<rparr>\<rparr>))) = []
   \<and> kv_lookup (kv (snd (put ''c.a'' [(''id'', Str ''a'')] (store0\<lparr>engine := engine0\<lparr>readOnly := True\<rparr>\<rparr>)))) ''c'' ''a''
        = Some [(''id'', Str ''a'')]
   \<and> kv (snd (batch [\<lparr>type' = PutOp, key = ''c.a'', value' = Some (doc ''a'' 5)\<rparr>,
                      \<lparr>type' = DelOp, key = ''c.b'', value' = None\<rparr>]
                     (store0\<lparr>kv := [''c'' \<mapsto> [(''b'', doc ''b'' 1)]],
                             engine := engine0\<lparr>readOnly := True\<rparr>\<rparr>))) ''c''
        = Some [(''a'', doc ''a'' 5)]
   \<and> db (snd (batch [\<lparr>type' = PutOp, key = ''c.a'', value' = Some (doc ''a'' 5)\<rparr>,
                      \<lparr>type' = DelOp, key = ''c.b'', value' = None\<rparr>]
                     (store0\<lparr>kv := [''c'' \<mapsto> [(''b'', doc ''b'' 1)]],
                             engine := engine0\<lparr>readOnly := True\<rparr>\<rparr>))) ''c'' = []"
proof -
  let ?s1 = "store0\<lparr>kv := [''c'' \<mapsto> [(''b'', doc ''b'' 1)]], engine := engine0\<lparr>readOnly := True\<rparr>\<rparr>"
  let ?vals = "[\<lparr>type' = PutOp, key = ''c.a'', value' = Some (doc ''a'' 5)\<rparr>,
                \<lparr>type' = DelOp, key = ''c.b'', value' = None\<rparr>]"
  have h: "readOnly (engine (store0\<lparr>engine := engine0\<lparr>readOnly := True\<rparr>\<rparr>))"
    by simp
  have h1: "readOnly (engine ?s1)"
    by simp
  have t: "truthy (key_ref ''c.a'') \<and> truthy_opt (key_id ''c.a'')"
    by (simp add: key_ref_def key_id_def truthy_def truthy_opt_def)
  note w = readOnly_no_durable_write[OF h, of "''c.a''" "[(''id'', Str ''a'')]"
      "[\<lparr>type' = DelOp, key = ''c.b'', value' = None\<rparr>]" None]
  note w1 = readOnly_no_durable_write[OF h1, of "''c.a''" "[(''id'', Str ''a'')]" ?vals None]
  from w have 1: "db (snd (put ''c.a'' [(''id'', Str ''a'')] (store0\<lparr>engine := engine0\<lparr>readOnly := True\<rparr>\<rparr>))) = db store0"
    by simp
  from w have 2: "writes (snd (batch [\<lparr>type' = DelOp, key = ''c.b'', value' = None\<rparr>] (store0\<lparr>engine := engine0\<lparr>readOnly := True\<rparr>\<rparr>))) = []"
    by (simp add: store0_def)
  from w t have "kv_lookup (kv (snd (put ''c.a'' [(''id'', Str ''a'')] (store0\<lparr>engine := engine0\<lparr>readOnly := True\<rparr>\<rparr>))))
       (key_ref ''c.a'') (prop_name (key_id ''c.a'')) = Some [(''id'', Str ''a'')]"
    by blast
  then have 3: "kv_lookup (kv (snd (put ''c.a'' [(''id'', Str ''a'')] (store0\<lparr>engine := engine0\<lparr>readOnly := True\<rparr>\<rparr>))))
       ''c'' ''a'' = Some [(''id'', Str ''a'')]"
    by (simp add: key_ref_def key_id_def prop_name_def)
  from w1 have "kv (snd (batch ?vals ?s1)) ''c'' =
       (if ops_for ''c'' ?vals = [] then kv ?s1 ''c''
        else Some (foldl kv_step (kv_inner (kv ?s1) ''c'') (ops_for ''c'' ?vals)))"
    by blast
  then have 4: "kv (snd (batch ?vals ?s1)) ''c'' = Some [(''a'', doc ''a'' 5)]"
    by (simp add: model_defs doc_def)
  from w1 have "db (snd (batch ?vals ?s1)) = db ?s1"
    by blast
  then have 5: "db (snd (batch ?vals ?s1)) ''c'' = []"
    by (simp add: store0_def)
  from h 1 2 3 4 5 show ?thesis by blast
qed

lemma update_fresh: "k \<notin> fst ` set xs \<Longrightarrow> AList.update k x xs = xs @ [(k, x)]"
  by (induction xs) auto

lemma strip_id_fold:
  "v = xs @ ys \<Longrightarrow> distinct (map fst v) \<Longrightarrow> ''_id'' \<notin> fst ` set ys \<Longrightarrow>
   foldl (\<lambda>carr k. if k \<noteq> ''_id'' then AList.update k (js_get v k) carr else carr) xs (map fst ys) = v"
proof (induction ys arbitrary: xs)
  case Nil
  then show ?case by simp
next
  case (Cons y ys)
  obtain k x where y: "y = (k, x)" by (cases y)
  from Cons.prems have fresh: "k \<notin> fst ` set xs" and k: "k \<noteq> ''_id''"
    by (auto simp: y)
  from fresh Cons.prems(1) have g: "js_get v k = x"
    by (simp add: js_get_def y map_add_def map_of_eq_None_iff[THEN iffD2])
  from Cons.prems have v: "v = (xs @ [y]) @ ys" and i: "''_id'' \<notin> fst ` set ys"
    by auto
  show ?case
    using Cons.IH[OF v Cons.prems(2) i] by (simp add: y k g update_fresh[OF fresh])
qed

lemma strip_id_ident: "distinct (map fst v) \<Longrightarrow> ''_id'' \<notin> set (map fst v) \<Longrightarrow> strip_id v = v"
  using strip_id_fold[of v "[]" v] by (simp add: strip_id_def)

lemma update_js_get: "k \<in> set (map fst v) \<Longrightarrow> AList.update k (js_get v k) v = v"
proof -
  assume "k \<in> set (map fst v)"
  then obtain x where "map_of v k = Some x"
    by (cases "map_of v k") (auto simp: map_of_eq_None_iff)
  then show ?thesis by (simp add: js_get_def update_triv)
qed

lemma replacement_versioned: "versioned v \<Longrightarrow> replacement (Some v) = v"
  by (simp add: replacement_def versioned_def strip_id_ident update_js_get)

lemma put_db:
  "db (snd (put k v s)) =
     (if truthy (key_ref k) \<and> truthy_opt (key_id k) \<and> \<not> readOnly (engine s)
      then (db s)(key_ref k := replaceOne (put_filter (mutable s) (key_ref k) (str_val (key_id k)) v) v (db s (key_ref k)))
      else db s)"
  by (simp add: put_def Let_def)

lemma put_frame: "engine (snd (put k v s)) = engine s" "mutable (snd (put k v s)) = mutable s"
  "bulkOrder (snd (put k v s)) = bulkOrder s"
  by (simp_all add: put_def Let_def)

lemma del_frame: "engine (snd (del k s)) = engine s" "mutable (snd (del k s)) = mutable s"
  "bulkOrder (snd (del k s)) = bulkOrder s"
  by (simp_all add: del_def Let_def)

lemma fld_to_bson [simp]: "fld (to_bson r) k = fld r k"
  by (cases "map_of r k") (simp_all add: fld_def js_get_def to_bson_def map_of_map bson_def)

lemma matches_names_id: "map_of flt ''id'' = Some i \<Longrightarrow> matches flt d \<Longrightarrow> fld d ''id'' = bson i"
  by (auto simp: matches_def list_all_iff dest!: map_of_SomeD)

lemma js_get_Some: "map_of flt k = Some i \<Longrightarrow> js_get flt k = i"
  by (simp add: js_get_def)

lemma replaceOne_same_id:
  assumes "\<forall>d. matches flt d \<longrightarrow> fld d ''id'' = j" and "fld r ''id'' = j"
  shows "filter (\<lambda>d. fld d ''id'' = j) (replaceOne flt r docs) =
         replaceOne flt r (filter (\<lambda>d. fld d ''id'' = j) docs)"
  using assms by (induction docs) auto

lemma replaceOne_other_id:
  assumes "\<forall>d. matches flt d \<longrightarrow> fld d ''id'' = i" and "fld r ''id'' = i" and "i \<noteq> j"
  shows "filter (\<lambda>d. fld d ''id'' = j) (replaceOne flt r docs) = filter (\<lambda>d. fld d ''id'' = j) docs"
  using assms by (induction docs) auto

lemma deleteMany_same_id:
  "filter P (deleteMany flt docs) = deleteMany flt (filter P docs)"
  by (induction docs) (simp_all add: deleteMany_def)

lemma deleteMany_other_id:
  assumes "\<forall>d. matches flt d \<longrightarrow> fld d ''id'' = i" and "i \<noteq> j"
  shows "filter (\<lambda>d. fld d ''id'' = j) (deleteMany flt docs) = filter (\<lambda>d. fld d ''id'' = j) docs"
  using assms by (induction docs) (auto simp: deleteMany_def)

lemma keyed_matches:
  "keyed (ReplaceOne flt r) \<Longrightarrow> matches flt d \<Longrightarrow> fld d ''id'' = op_id (ReplaceOne flt r)"
  "keyed (DeleteMany flt) \<Longrightarrow> matches flt d \<Longrightarrow> fld d ''id'' = op_id (DeleteMany flt)"
  by (auto simp: keyed_def op_id_def matches_names_id js_get_Some)

lemma apply_same_id:
  "keyed op \<Longrightarrow> op_id op = j \<Longrightarrow>
   filter (\<lambda>d. fld d ''id'' = j) (apply_bulk_op docs op) =
     apply_bulk_op (filter (\<lambda>d. fld d ''id'' = j) docs) op"
proof (cases op)
  case (ReplaceOne flt r)
  assume k: "keyed op" and j: "op_id op = j"
  from k j have "\<forall>d. matches flt d \<longrightarrow> fld d ''id'' = j"
    using keyed_matches(1)[of flt r] by (simp add: ReplaceOne)
  moreover from k j have "fld r ''id'' = j"
    by (simp add: ReplaceOne keyed_def op_id_def)
  ultimately show ?thesis
    by (simp add: ReplaceOne replaceOne_same_id)
next
  case (DeleteMany flt)
  then show ?thesis by (simp add: deleteMany_same_id)
qed

lemma apply_other_id:
  "keyed op \<Longrightarrow> op_id op \<noteq> j \<Longrightarrow>
   filter (\<lambda>d. fld d ''id'' = j) (apply_bulk_op docs op) = filter (\<lambda>d. fld d ''id'' = j) docs"
proof (cases op)
  case (ReplaceOne flt r)
  assume k: "keyed op" and j: "op_id op \<noteq> j"
  from k have a: "\<forall>d. matches flt d \<longrightarrow> fld d ''id'' = op_id op"
    using keyed_matches(1)[of flt r] by (simp add: ReplaceOne)
  from k have b: "fld r ''id'' = op_id op"
    by (simp add: ReplaceOne keyed_def op_id_def)
  from replaceOne_other_id[OF a b j] show ?thesis
    by (simp add: ReplaceOne)
next
  case (DeleteMany flt)
  assume k: "keyed op" and j: "op_id op \<noteq> j"
  from k have a: "\<forall>d. matches flt d \<longrightarrow> fld d ''id'' = op_id op"
    using keyed_matches(2)[of flt] by (simp add: DeleteMany)
  from deleteMany_other_id[OF a j] show ?thesis
    by (simp add: DeleteMany)
qed

lemma foldl_apply_by_id:
  "\<forall>op\<in>set ops. keyed op \<Longrightarrow>
   filter (\<lambda>d. fld d ''id'' = j) (foldl apply_bulk_op docs ops) =
     foldl apply_bulk_op (filter (\<lambda>d. fld d ''id'' = j) docs) (filter (\<lambda>op. op_id op = j) ops)"
  by (induction ops arbitrary: docs) (simp_all add: apply_same_id apply_other_id)

lemma filter_distinct_short: "distinct (map f xs) \<Longrightarrow> length (filter (\<lambda>x. f x = j) xs) \<le> 1"
proof (induction xs)
  case Nil
  then show ?case by simp
next
  case (Cons x xs)
  show ?case
  proof (cases "f x = j")
    case True
    from Cons.prems have "f x \<notin> f ` set xs" by simp
    with True have "\<forall>y\<in>set xs. f y \<noteq> j" by blast
    then have "filter (\<lambda>y. f y = j) xs = []"
      by (simp add: filter_empty_conv)
    with True show ?thesis by simp
  next
    case False
    with Cons show ?thesis by simp
  qed
qed

lemma mset_eq_short: "mset xs = mset ys \<Longrightarrow> length xs \<le> 1 \<Longrightarrow> xs = ys"
proof -
  assume m: "mset xs = mset ys" and l: "length xs \<le> 1"
  from m have "length xs = length ys" by (rule mset_eq_length)
  with l m show ?thesis
    by (cases xs; cases ys) auto
qed

lemma filter_rearranged:
  assumes "mset ops' = mset ops" and "distinct (map f ops)"
  shows "filter (\<lambda>x. f x = j) ops' = filter (\<lambda>x. f x = j) ops"
proof -
  from assms(1) have "mset (filter (\<lambda>x. f x = j) ops') = mset (filter (\<lambda>x. f x = j) ops)"
    by simp
  moreover from assms(1) have "mset (map f ops') = mset (map f ops)" by simp
  then have "distinct (map f ops')" using assms(2) by (metis mset_eq_imp_distinct_iff)
  then have "length (filter (\<lambda>x. f x = j) ops') \<le> 1" by (rule filter_distinct_short)
  ultimately show ?thesis by (rule mset_eq_short)
qed

lemma mset_by_id:
  assumes "\<And>j. filter (\<lambda>d. g d = j) xs = filter (\<lambda>d. g d = j) ys"
  shows "mset xs = mset ys"
proof (rule multiset_eqI)
  fix d
  have "count (mset xs) d = count (mset (filter (\<lambda>e. g e = g d) xs)) d" by simp
  also have "\<dots> = count (mset (filter (\<lambda>e. g e = g d) ys)) d" by (simp only: assms)
  also have "\<dots> = count (mset ys) d" by simp
  finally show "count (mset xs) d = count (mset ys) d" .
qed

lemma bulkWrite_any_order:
  assumes "mset (order ops) = mset ops" and "distinct (map op_id ops)" and "\<forall>op\<in>set ops. keyed op"
  shows "mset (bulkWrite order ops docs) = mset (foldl apply_bulk_op docs ops)"
proof (rule mset_by_id[where g = "\<lambda>d. fld d ''id''"])
  fix j
  from assms(1) have "set (order ops) = set ops" by (rule mset_eq_setD)
  with assms(3) have k: "\<forall>op\<in>set (order ops). keyed op" by simp
  show "filter (\<lambda>d. fld d ''id'' = j) (bulkWrite order ops docs) =
        filter (\<lambda>d. fld d ''id'' = j) (foldl apply_bulk_op docs ops)"
    unfolding bulkWrite_def foldl_apply_by_id[OF k] foldl_apply_by_id[OF assms(3)]
      filter_rearranged[OF assms(1,2)] ..
qed

lemma mset_updatesFirst: "mset (updatesFirst ops) = mset ops"
  by (induction ops) (simp_all add: updatesFirst_def)

lemma op_id_bulk_of: "op_id (bulk_of mut r val) = bson (str_val (key_id (key val)))"
  by (simp add: op_id_def bulk_of_def put_filter_def js_get_def)

lemma keyed_bulk_of:
  "type' val = DelOp \<Longrightarrow> keyed (bulk_of mut r val)"
  "type' val = PutOp \<Longrightarrow> value' val = Some v \<Longrightarrow> versioned v \<Longrightarrow>
   js_get v ''id'' = str_val (key_id (key val)) \<Longrightarrow> keyed (bulk_of mut r val)"
  by (simp_all add: keyed_def bulk_of_def put_filter_def js_get_def replacement_versioned fld_def)

text \<open>
  C3, amended. For keys \<^verbatim>\<open>ref.id\<close> that differ pairwise and put values that carry the id of
  their key, their three block fields and no \<^verbatim>\<open>_id\<close>, in either collection mode and
  whatever order the unordered bulk write is applied in: \<^verbatim>\<open>batch([put a, put b, del c])\<close>
  leaves the cache as \<^verbatim>\<open>put a; put b; del c\<close> does, and leaves in every collection the
  documents, up to their order in the collection, that \<^verbatim>\<open>put a; put b\<close> leave once every
  document of \<open>c\<close>'s id is removed; in read-only mode the documents are untouched on both
  paths.
\<close>

theorem batch_put_put_del:
  assumes "truthy (key_ref ka)" "truthy_opt (key_id ka)" "truthy (key_ref kb)" "truthy_opt (key_id kb)"
    and "truthy (key_ref kc)" "truthy_opt (key_id kc)" "versioned va" "versioned vb"
    and "js_get va ''id'' = str_val (key_id ka)" "js_get vb ''id'' = str_val (key_id kb)"
    and "(key_ref ka, key_id ka) \<noteq> (key_ref kb, key_id kb)"
    and "(key_ref ka, key_id ka) \<noteq> (key_ref kc, key_id kc)"
    and "(key_ref kb, key_id kb) \<noteq> (key_ref kc, key_id kc)"
    and "\<forall>ops. mset (bulkOrder s ops) = mset ops"
  shows "kv (snd (batch [\<lparr>type' = PutOp, key = ka, value' = Some va\<rparr>,
                        \<lparr>type' = PutOp, key = kb, value' = Some vb\<rparr>,
                        \<lparr>type' = DelOp, key = kc, value' = vc\<rparr>] s))
           = kv (snd (del kc (snd (put kb vb (snd (put ka va s))))))
       \<and> (\<forall>r. mset (db (snd (batch [\<lparr>type' = PutOp, key = ka, value' = Some va\<rparr>,
                                   \<lparr>type' = PutOp, key = kb, value' = Some vb\<rparr>,
                                   \<lparr>type' = DelOp, key = kc, value' = vc\<rparr>] s)) r)
           = mset ((if readOnly (engine s) then db (snd (del kc (snd (put kb vb (snd (put ka va s))))))
                    else (db (snd (put kb vb (snd (put ka va s)))))
                           (key_ref kc := deleteMany [(''id'', str_val (key_id kc))]
                                            (db (snd (put kb vb (snd (put ka va s)))) (key_ref kc)))) r))"
proof -
  let ?a = "\<lparr>type' = PutOp, key = ka, value' = Some va\<rparr>"
  let ?b = "\<lparr>type' = PutOp, key = kb, value' = Some vb\<rparr>"
  let ?c = "\<lparr>type' = DelOp, key = kc, value' = vc\<rparr>"
  let ?vals = "[?a, ?b, ?c]"
  let ?seq = "if readOnly (engine s) then db (snd (del kc (snd (put kb vb (snd (put ka va s))))))
              else (db (snd (put kb vb (snd (put ka va s)))))
                     (key_ref kc := deleteMany [(''id'', str_val (key_id kc))]
                                      (db (snd (put kb vb (snd (put ka va s)))) (key_ref kc)))"
  have k: "kv (snd (batch ?vals s)) r = kv (snd (del kc (snd (put kb vb (snd (put ka va s)))))) r" for r
    using assms(1-8)
    by (simp add: batch_kv ops_for_def survives_def kv_step_def replacement_versioned
        del_kv put_kv kv_inner_def)
  have s: "?seq r =
       (if \<not> readOnly (engine s) \<and> ops_for r ?vals \<noteq> []
        then foldl apply_bulk_op (db s r) (map (bulk_of (mutable s) r) (ops_for r ?vals))
        else db s r)" for r
    using assms(1-8) del_readOnly[of "snd (put kb vb (snd (put ka va s)))" kc]
    by (simp add: ops_for_def survives_def bulk_of_def replacement_versioned put_db put_frame)
  have ky: "keyed (bulk_of (mutable s) r ?a)" "keyed (bulk_of (mutable s) r ?b)"
    "keyed (bulk_of (mutable s) r ?c)" for r
    using assms(7-10) by (simp_all add: keyed_bulk_of)
  have keyed: "\<forall>op\<in>set (map (bulk_of (mutable s) r) (ops_for r ?vals)). keyed op" for r
    using ky[of r] by (simp add: ops_for_def)
  have ids: "distinct (map op_id (map (bulk_of (mutable s) r) (ops_for r ?vals)))" for r
    using assms(2,4,6,11-13)
    by (auto simp: ops_for_def op_id_bulk_of str_val_def bson_def truthy_opt_def
        split: option.splits)
  have d: "mset (db (snd (batch ?vals s)) r) = mset (?seq r)" for r
    using bulkWrite_any_order[where order = "bulkOrder s"
        and ops = "map (bulk_of (mutable s) r) (ops_for r ?vals)" and docs = "db s r",
        OF assms(14)[rule_format] ids[of r] keyed[of r]]
    by (simp add: batch_db s)
  from k d show ?thesis by (simp add: fun_eq_iff)
qed

lemma versioned_doc: "versioned (doc i ts)"
  by (simp add: versioned_def doc_def)

theorem batch_put_put_del_witness:
  "truthy (key_ref ''c.a'') \<and> truthy_opt (key_id ''c.a'') \<and> versioned (doc ''a'' 5)
   \<and> js_get (doc ''a'' 5) ''id'' = str_val (key_id ''c.a'')
   \<and> kv (snd (batch [\<lparr>type' = PutOp, key = ''c.a'', value' = Some (doc ''a'' 5)\<rparr>,
                      \<lparr>type' = PutOp, key = ''c.b'', value' = Some (doc ''b'' 5)\<rparr>,
                      \<lparr>type' = DelOp, key = ''c.x'', value' = None\<rparr>]
                     (store0\<lparr>db := (\<lambda>_. [doc ''x'' 2, doc ''x'' 1]), bulkOrder := rev\<rparr>)))
       = kv (snd (del ''c.x'' (snd (put ''c.b'' (doc ''b'' 5) (snd (put ''c.a'' (doc ''a'' 5)
                     (store0\<lparr>db := (\<lambda>_. [doc ''x'' 2, doc ''x'' 1]), bulkOrder := rev\<rparr>)))))))
   \<and> mset (db (snd (batch [\<lparr>type' = PutOp, key = ''c.a'', value' = Some (doc ''a'' 5)\<rparr>,
                            \<lparr>type' = PutOp, key = ''c.b'', value' = Some (doc ''b'' 5)\<rparr>,
                            \<lparr>type' = DelOp, key = ''c.x'', value' = None\<rparr>]
                           (store0\<lparr>db := (\<lambda>_. [doc ''x'' 2, doc ''x'' 1]), bulkOrder := rev\<rparr>))) ''c'')
       = mset [doc ''a'' 5, doc ''b'' 5]"
proof -
  let ?s = "store0\<lparr>db := (\<lambda>_. [doc ''x'' 2, doc ''x'' 1]), bulkOrder := rev\<rparr>"
  have t: "truthy (key_ref ''c.a'')" "truthy_opt (key_id ''c.a'')"
       "truthy (key_ref ''c.b'')" "truthy_opt (key_id ''c.b'')"
       "truthy (key_ref ''c.x'')" "truthy_opt (key_id ''c.x'')"
    by (simp_all add: key_ref_def key_id_def truthy_def truthy_opt_def)
  have i: "js_get (doc ''a'' 5) ''id'' = str_val (key_id ''c.a'')"
       "js_get (doc ''b'' 5) ''id'' = str_val (key_id ''c.b'')"
    by (simp_all add: js_get_def doc_def str_val_def key_id_def)
  have n: "(key_ref ''c.a'', key_id ''c.a'') \<noteq> (key_ref ''c.b'', key_id ''c.b'')"
       "(key_ref ''c.a'', key_id ''c.a'') \<noteq> (key_ref ''c.x'', key_id ''c.x'')"
       "(key_ref ''c.b'', key_id ''c.b'') \<noteq> (key_ref ''c.x'', key_id ''c.x'')"
    by (simp_all add: key_id_def)
  have p: "\<forall>ops. mset (bulkOrder ?s ops) = mset ops"
    by simp
  note w = batch_put_put_del[OF t versioned_doc versioned_doc i n p, of None]
  have r: "\<not> readOnly (engine ?s)"
    by (simp add: store0_def engine0_def)
  let ?s2 = "snd (put ''c.b'' (doc ''b'' 5) (snd (put ''c.a'' (doc ''a'' 5) ?s)))"
  have v: "((db ?s2)(key_ref ''c.x'' := deleteMany [(''id'', str_val (key_id ''c.x''))]
                (db ?s2 (key_ref ''c.x'')))) ''c'' = [doc ''a'' 5, doc ''b'' 5]"
    by (simp add: put_db put_frame store0_def engine0_def key_ref_def key_id_def str_val_def
        truthy_def truthy_opt_def
        put_filter_def deleteMany_def matches_def fld_def js_get_def bson_def doc_def to_bson_def)
  from w have 1: "kv (snd (batch [\<lparr>type' = PutOp, key = ''c.a'', value' = Some (doc ''a'' 5)\<rparr>,
                      \<lparr>type' = PutOp, key = ''c.b'', value' = Some (doc ''b'' 5)\<rparr>,
                      \<lparr>type' = DelOp, key = ''c.x'', value' = None\<rparr>] ?s))
       = kv (snd (del ''c.x'' (snd (put ''c.b'' (doc ''b'' 5) (snd (put ''c.a'' (doc ''a'' 5) ?s))))))"
    by blast
  from w have "mset (db (snd (batch [\<lparr>type' = PutOp, key = ''c.a'', value' = Some (doc ''a'' 5)\<rparr>,
                            \<lparr>type' = PutOp, key = ''c.b'', value' = Some (doc ''b'' 5)\<rparr>,
                            \<lparr>type' = DelOp, key = ''c.x'', value' = None\<rparr>] ?s)) ''c'')
       = mset ((if readOnly (engine ?s) then db (snd (del ''c.x'' ?s2))
                else (db ?s2)(key_ref ''c.x'' := deleteMany [(''id'', str_val (key_id ''c.x''))]
                                (db ?s2 (key_ref ''c.x'')))) ''c'')"
    by blast
  then have 2: "mset (db (snd (batch [\<lparr>type' = PutOp, key = ''c.a'', value' = Some (doc ''a'' 5)\<rparr>,
                            \<lparr>type' = PutOp, key = ''c.b'', value' = Some (doc ''b'' 5)\<rparr>,
                            \<lparr>type' = DelOp, key = ''c.x'', value' = None\<rparr>] ?s)) ''c'')
       = mset [doc ''a'' 5, doc ''b'' 5]"
    using r v by simp
  from t(1,2) versioned_doc[of "''a''" 5] i(1) 1 2 show ?thesis by blast
qed

text \<open>
  C3, as stated, fails, in seven ways. A batched del removes every version of the id while
  \<^verbatim>\<open>del\<close> removes one document. A batched put caches the value without its \<^verbatim>\<open>_id\<close>. A batched
  put of a value without block fields stores them as null, which \<^verbatim>\<open>put\<close> does not. The order
  of the bulk write matters: when the deletion of a key is applied before the put of the same
  key, the document stays; and when a put value carries the id of another key and the puts
  are applied backwards, two documents are stored where the sequence stores one. A batched put
  under a key with no id stores a document, which \<^verbatim>\<open>put\<close> does not. And with the puts
  applied backwards the same documents are stored in another order.
\<close>

theorem batch_differs_from_sequence:
  "db (snd (batch [\<lparr>type' = PutOp, key = ''c.a'', value' = Some (doc ''a'' 5)\<rparr>,
                    \<lparr>type' = PutOp, key = ''c.b'', value' = Some (doc ''b'' 5)\<rparr>,
                    \<lparr>type' = DelOp, key = ''c.x'', value' = None\<rparr>]
                   (store0\<lparr>db := (\<lambda>_. [doc ''x'' 2, doc ''x'' 1])\<rparr>))) ''c''
     \<noteq> db (snd (del ''c.x'' (snd (put ''c.b'' (doc ''b'' 5) (snd (put ''c.a'' (doc ''a'' 5)
                   (store0\<lparr>db := (\<lambda>_. [doc ''x'' 2, doc ''x'' 1])\<rparr>))))))) ''c''
   \<and> kv (snd (batch [\<lparr>type' = PutOp, key = ''c.a'', value' = Some ((''_id'', Num 7) # doc ''a'' 5)\<rparr>,
                      \<lparr>type' = PutOp, key = ''c.b'', value' = Some (doc ''b'' 5)\<rparr>,
                      \<lparr>type' = DelOp, key = ''c.x'', value' = None\<rparr>] store0)) ''c''
     \<noteq> kv (snd (del ''c.x'' (snd (put ''c.b'' (doc ''b'' 5)
                   (snd (put ''c.a'' ((''_id'', Num 7) # doc ''a'' 5) store0)))))) ''c''
   \<and> db (snd (batch [\<lparr>type' = PutOp, key = ''c.a'', value' = Some [(''id'', Str ''a''), (''data'', Str ''v1'')]\<rparr>,
                      \<lparr>type' = PutOp, key = ''c.b'', value' = Some [(''id'', Str ''b''), (''data'', Str ''v2'')]\<rparr>,
                      \<lparr>type' = DelOp, key = ''d.x'', value' = None\<rparr>] store0)) ''c''
     \<noteq> db (snd (del ''d.x'' (snd (put ''c.b'' [(''id'', Str ''b''), (''data'', Str ''v2'')]
                   (snd (put ''c.a'' [(''id'', Str ''a''), (''data'', Str ''v1'')] store0)))))) ''c''
   \<and> db (snd (batch [\<lparr>type' = PutOp, key = ''c.x'', value' = Some (doc ''x'' 5)\<rparr>,
                      \<lparr>type' = PutOp, key = ''c.b'', value' = Some (doc ''b'' 5)\<rparr>,
                      \<lparr>type' = DelOp, key = ''c.x'', value' = None\<rparr>]
                     (store0\<lparr>bulkOrder := rev\<rparr>))) ''c'' = [doc ''b'' 5, doc ''x'' 5]
   \<and> db (snd (del ''c.x'' (snd (put ''c.b'' (doc ''b'' 5) (snd (put ''c.x'' (doc ''x'' 5)
                     (store0\<lparr>bulkOrder := rev\<rparr>))))))) ''c'' = [doc ''b'' 5]
   \<and> db (snd (batch [\<lparr>type' = PutOp, key = ''c.a'', value' = Some (doc ''b'' 5)\<rparr>,
                      \<lparr>type' = PutOp, key = ''c.b'', value' = Some (doc ''b'' 5)\<rparr>,
                      \<lparr>type' = DelOp, key = ''d.x'', value' = None\<rparr>]
                     (store0\<lparr>bulkOrder := rev\<rparr>))) ''c'' = [doc ''b'' 5, doc ''b'' 5]
   \<and> db (snd (del ''d.x'' (snd (put ''c.b'' (doc ''b'' 5) (snd (put ''c.a'' (doc ''b'' 5)
                     (store0\<lparr>bulkOrder := rev\<rparr>))))))) ''c'' = [doc ''b'' 5]
   \<and> db (snd (batch [\<lparr>type' = PutOp, key = ''c'', value' = Some (doc ''a'' 5)\<rparr>,
                      \<lparr>type' = PutOp, key = ''c.b'', value' = Some (doc ''b'' 5)\<rparr>,
                      \<lparr>type' = DelOp, key = ''d.x'', value' = None\<rparr>] store0)) ''c''
       = [doc ''a'' 5, doc ''b'' 5]
   \<and> db (snd (del ''d.x'' (snd (put ''c.b'' (doc ''b'' 5) (snd (put ''c'' (doc ''a'' 5) store0)))))) ''c''
       = [doc ''b'' 5]
   \<and> db (snd (batch [\<lparr>type' = PutOp, key = ''c.a'', value' = Some (doc ''a'' 5)\<rparr>,
                      \<lparr>type' = PutOp, key = ''c.b'', value' = Some (doc ''b'' 5)\<rparr>,
                      \<lparr>type' = DelOp, key = ''d.x'', value' = None\<rparr>]
                     (store0\<lparr>bulkOrder := rev\<rparr>))) ''c'' = [doc ''b'' 5, doc ''a'' 5]
   \<and> db (snd (del ''d.x'' (snd (put ''c.b'' (doc ''b'' 5) (snd (put ''c.a'' (doc ''a'' 5)
                     (store0\<lparr>bulkOrder := rev\<rparr>))))))) ''c'' = [doc ''a'' 5, doc ''b'' 5]"
  by code_simp

lemma deleteOne_empty_filter: "deleteOne [] docs = (case docs of [] \<Rightarrow> [] | _ # ds \<Rightarrow> ds)"
  by (cases docs) (simp_all add: matches_def)

lemma del_db:
  "db (snd (del k s)) =
     (if truthy (key_ref k) \<and> truthy_opt (key_id k) \<and> \<not> readOnly (engine s)
      then (db s)(key_ref k := (case db s (key_ref k) of [] \<Rightarrow> [] | _ # ds \<Rightarrow> ds))
      else db s)"
  by (simp add: del_def Let_def deleteOne_empty_filter)

text \<open>
  C5. \<^verbatim>\<open>del\<close> hands the driver the promise of its lookup, not the document found: with
  three documents stored, deleting \<^verbatim>\<open>c.a\<close> removes the document of \<^verbatim>\<open>b\<close>, and the newest
  version of \<^verbatim>\<open>a\<close>, which the lookup finds, stays.
\<close>

theorem del_removes_first_document:
  "findOne [(''id'', Str ''a'')] [doc ''b'' 1, doc ''a'' 1, doc ''a'' 2] = Some (doc ''a'' 2)
   \<and> db (snd (del ''c.a'' (store0\<lparr>db := (\<lambda>_. [doc ''b'' 1, doc ''a'' 1, doc ''a'' 2])\<rparr>))) ''c''
       = [doc ''a'' 1, doc ''a'' 2]"
  by code_simp

subsection \<open>Reads\<close>

lemma set_sort_block_ts_desc [simp]: "set (sort_block_ts_desc docs) = set docs"
  by (simp add: sort_block_ts_desc_def)

lemma sorted_sort_block_ts_desc:
  "sorted_wrt (\<lambda>a b. block_ts b \<le> block_ts a) (sort_block_ts_desc docs)"
proof -
  have "sorted (map block_ts (sort_key block_ts (rev docs)))" by simp
  then have "sorted_wrt (\<lambda>a b. block_ts a \<le> block_ts b) (sort_key block_ts (rev docs))"
    by (simp add: sorted_map)
  then show ?thesis
    by (simp add: sort_block_ts_desc_def sorted_wrt_rev)
qed

lemma matches_id: "matches [(''id'', Str i)] d = (fld d ''id'' = Str i)"
  by (simp add: matches_def bson_def)

lemma findOne_Some:
  assumes "findOne flt docs = Some d"
  shows "d \<in> set docs \<and> matches flt d \<and> (\<forall>e\<in>set docs. matches flt e \<longrightarrow> block_ts e \<le> block_ts d)"
proof -
  from assms obtain ds where s: "sort_block_ts_desc (filter (matches flt) docs) = d # ds"
    by (auto simp: findOne_def split: list.splits)
  have "set (d # ds) = set (filter (matches flt) docs)"
    using set_sort_block_ts_desc[of "filter (matches flt) docs"] by (simp add: s)
  moreover have "sorted_wrt (\<lambda>a b. block_ts b \<le> block_ts a) (d # ds)"
    using sorted_sort_block_ts_desc[of "filter (matches flt) docs"] by (simp add: s)
  ultimately show ?thesis by auto
qed

lemma findOne_None: "findOne flt docs = None \<longleftrightarrow> (\<forall>e\<in>set docs. \<not> matches flt e)"
proof -
  have "findOne flt docs = None \<longleftrightarrow> sort_block_ts_desc (filter (matches flt) docs) = []"
    by (simp add: findOne_def split: list.splits)
  also have "\<dots> \<longleftrightarrow> set (sort_block_ts_desc (filter (matches flt) docs)) = {}"
    by (simp only: set_empty)
  also have "\<dots> \<longleftrightarrow> (\<forall>e\<in>set docs. \<not> matches flt e)"
    by auto
  finally show ?thesis .
qed

lemma get_single:
  assumes "truthy (key_ref k)" "key_id k = Some i" "truthy i"
  shows "get k s =
     (case kv_lookup (kv s) (key_ref k) i of
        Some v \<Rightarrow> Inr (One v)
      | None \<Rightarrow>
          if reads_through (engine s) (key_ref k)
          then (case findOne [(''id'', Str i)] (db s (key_ref k)) of
                  Some d \<Rightarrow> Inr (One d) | None \<Rightarrow> Inl NotFound)
          else Inl NotFound)"
  using assms
  by (simp add: get_def Let_def truthy_opt_def prop_name_def str_val_def split: option.splits)

text \<open>
  C7. For a key \<^verbatim>\<open>ref.id\<close>, \<^verbatim>\<open>get\<close> returns the cached value when there is one; otherwise,
  when \<^verbatim>\<open>newDb\<close> is unset and \<^verbatim>\<open>warmDb\<close> is unset or the collection is \<^verbatim>\<open>__meta__\<close>, it returns
  a stored document of that id whose \<^verbatim>\<open>_block_ts\<close> no other document of the id exceeds, and
  fails with NotFound when the collection holds none; in the remaining case it fails with
  NotFound.
\<close>

theorem get_by_key:
  assumes "truthy (key_ref k)" "key_id k = Some i" "truthy i"
  shows "(\<forall>v. kv_lookup (kv s) (key_ref k) i = Some v \<longrightarrow> get k s = Inr (One v))
       \<and> (kv_lookup (kv s) (key_ref k) i = None
            \<and> \<not> newDb (engine s) \<and> (\<not> warmDb (engine s) \<or> key_ref k = ''__meta__'') \<longrightarrow>
            (\<exists>d. get k s = Inr (One d) \<and> d \<in> set (db s (key_ref k)) \<and> fld d ''id'' = Str i
                 \<and> (\<forall>e\<in>set (db s (key_ref k)). fld e ''id'' = Str i \<longrightarrow> block_ts e \<le> block_ts d))
            \<or> (get k s = Inl NotFound \<and> (\<forall>e\<in>set (db s (key_ref k)). fld e ''id'' \<noteq> Str i)))
       \<and> (kv_lookup (kv s) (key_ref k) i = None
            \<and> \<not> (\<not> newDb (engine s) \<and> (\<not> warmDb (engine s) \<or> key_ref k = ''__meta__'')) \<longrightarrow>
            get k s = Inl NotFound)"
proof -
  note g = get_single[OF assms, of s]
  have 1: "\<forall>v. kv_lookup (kv s) (key_ref k) i = Some v \<longrightarrow> get k s = Inr (One v)"
    by (simp add: g)
  have 3: "kv_lookup (kv s) (key_ref k) i = None
            \<and> \<not> (\<not> newDb (engine s) \<and> (\<not> warmDb (engine s) \<or> key_ref k = ''__meta__'')) \<longrightarrow>
            get k s = Inl NotFound"
    by (auto simp: g reads_through_def)
  have 2: "kv_lookup (kv s) (key_ref k) i = None
            \<and> \<not> newDb (engine s) \<and> (\<not> warmDb (engine s) \<or> key_ref k = ''__meta__'') \<longrightarrow>
            (\<exists>d. get k s = Inr (One d) \<and> d \<in> set (db s (key_ref k)) \<and> fld d ''id'' = Str i
                 \<and> (\<forall>e\<in>set (db s (key_ref k)). fld e ''id'' = Str i \<longrightarrow> block_ts e \<le> block_ts d))
            \<or> (get k s = Inl NotFound \<and> (\<forall>e\<in>set (db s (key_ref k)). fld e ''id'' \<noteq> Str i))"
  proof (intro impI, elim conjE)
    assume n: "kv_lookup (kv s) (key_ref k) i = None"
      and r: "\<not> newDb (engine s)" "\<not> warmDb (engine s) \<or> key_ref k = ''__meta__''"
    from r have rt: "reads_through (engine s) (key_ref k)" by (simp add: reads_through_def)
    show "(\<exists>d. get k s = Inr (One d) \<and> d \<in> set (db s (key_ref k)) \<and> fld d ''id'' = Str i
                 \<and> (\<forall>e\<in>set (db s (key_ref k)). fld e ''id'' = Str i \<longrightarrow> block_ts e \<le> block_ts d))
            \<or> (get k s = Inl NotFound \<and> (\<forall>e\<in>set (db s (key_ref k)). fld e ''id'' \<noteq> Str i))"
    proof (cases "findOne [(''id'', Str i)] (db s (key_ref k))")
      case None
      then show ?thesis
        using findOne_None[of "[(''id'', Str i)]" "db s (key_ref k)"]
        by (simp add: g n rt matches_id)
    next
      case (Some d)
      then show ?thesis
        using findOne_Some[OF Some]
        by (simp add: g n rt matches_id)
    qed
  qed
  from 1 2 3 show ?thesis by blast
qed

theorem get_by_key_witness:
  "truthy (key_ref ''c.a'') \<and> key_id ''c.a'' = Some ''a'' \<and> truthy ''a''
   \<and> get ''c.z'' (store0\<lparr>kv := [''c'' \<mapsto> [(''z'', doc ''z'' 9)]],
                          db := (\<lambda>_. [doc ''a'' 1, doc ''a'' 2, doc ''b'' 3])\<rparr>) = Inr (One (doc ''z'' 9))
   \<and> get ''c.a'' (store0\<lparr>kv := [''c'' \<mapsto> [(''z'', doc ''z'' 9)]],
                          db := (\<lambda>_. [doc ''a'' 1, doc ''a'' 2, doc ''b'' 3])\<rparr>) = Inr (One (doc ''a'' 2))
   \<and> get ''c.a'' (store0\<lparr>engine := engine0\<lparr>newDb := True\<rparr>,
                          db := (\<lambda>_. [doc ''a'' 1, doc ''a'' 2, doc ''b'' 3])\<rparr>) = Inl NotFound"
proof -
  let ?s = "store0\<lparr>kv := [''c'' \<mapsto> [(''z'', doc ''z'' 9)]],
                   db := (\<lambda>_. [doc ''a'' 1, doc ''a'' 2, doc ''b'' 3])\<rparr>"
  let ?n = "store0\<lparr>engine := engine0\<lparr>newDb := True\<rparr>,
                   db := (\<lambda>_. [doc ''a'' 1, doc ''a'' 2, doc ''b'' 3])\<rparr>"
  have a: "truthy (key_ref ''c.a'')" "key_id ''c.a'' = Some ''a''" "truthy ''a''"
    and z: "truthy (key_ref ''c.z'')" "key_id ''c.z'' = Some ''z''" "truthy ''z''"
    and r: "key_ref ''c.a'' = ''c''" "key_ref ''c.z'' = ''c''"
    by (simp_all add: key_ref_def key_id_def truthy_def)
  have 1: "get ''c.z'' ?s = Inr (One (doc ''z'' 9))"
    using get_by_key[OF z, of ?s] by (simp add: r kv_lookup_def)
  have 3: "get ''c.a'' ?n = Inl NotFound"
    using get_by_key[OF a, of ?n] by (simp add: r kv_lookup_def store0_def)
  have "(\<exists>d. get ''c.a'' ?s = Inr (One d) \<and> d \<in> set (db ?s ''c'') \<and> fld d ''id'' = Str ''a''
            \<and> (\<forall>e\<in>set (db ?s ''c''). fld e ''id'' = Str ''a'' \<longrightarrow> block_ts e \<le> block_ts d))
        \<or> (get ''c.a'' ?s = Inl NotFound \<and> (\<forall>e\<in>set (db ?s ''c''). fld e ''id'' \<noteq> Str ''a''))"
    using get_by_key[OF a, of ?s] by (simp add: r kv_lookup_def store0_def engine0_def)
  then have 2: "get ''c.a'' ?s = Inr (One (doc ''a'' 2))"
    by (auto simp: fld_def js_get_def bson_def doc_def block_ts_def)
  from a 1 2 3 show ?thesis by blast
qed

lemma set_group_first_subset: "set (group_first xs) \<subseteq> set xs"
  by (induction xs rule: group_first.induct) auto

lemma ids_group_first: "(\<lambda>d. fld d ''id'') ` set (group_first xs) = (\<lambda>d. fld d ''id'') ` set xs"
proof (induction xs rule: group_first.induct)
  case 1
  then show ?case by simp
next
  case (2 d ds)
  show ?case
    using 2 by (auto simp: image_iff)
qed

lemma distinct_group_first: "distinct (map (\<lambda>d. fld d ''id'') (group_first xs))"
proof (induction xs rule: group_first.induct)
  case 1
  then show ?case by simp
next
  case (2 d ds)
  have "fld d ''id'' \<notin> (\<lambda>d. fld d ''id'') ` set (filter (\<lambda>e. fld e ''id'' \<noteq> fld d ''id'') ds)"
    by auto
  then have "fld d ''id'' \<notin> (\<lambda>d. fld d ''id'') ` set (group_first (filter (\<lambda>e. fld e ''id'' \<noteq> fld d ''id'') ds))"
    by (simp add: ids_group_first)
  with 2 show ?case by simp
qed

lemma group_first_latest:
  "sorted_wrt (\<lambda>a b. block_ts b \<le> block_ts a) xs \<Longrightarrow>
   d \<in> set (group_first xs) \<Longrightarrow> e \<in> set xs \<Longrightarrow> fld e ''id'' = fld d ''id'' \<Longrightarrow>
   block_ts e \<le> block_ts d"
proof (induction xs rule: group_first.induct)
  case 1
  then show ?case by simp
next
  case (2 x xs)
  let ?rest = "filter (\<lambda>e. fld e ''id'' \<noteq> fld x ''id'') xs"
  from "2.prems"(1) have s: "sorted_wrt (\<lambda>a b. block_ts b \<le> block_ts a) ?rest"
    and h: "\<forall>y\<in>set xs. block_ts y \<le> block_ts x"
    by (auto intro: sorted_wrt_filter)
  show ?case
  proof (cases "d = x")
    case True
    with "2.prems" h show ?thesis by auto
  next
    case False
    with "2.prems"(2) have d: "d \<in> set (group_first ?rest)" by simp
    with set_group_first_subset[of ?rest] have "fld d ''id'' \<noteq> fld x ''id''" by auto
    with "2.prems"(3,4) have "e \<in> set ?rest" by auto
    from "2.IH"[OF s d this "2.prems"(4)] show ?thesis .
  qed
qed

lemma length_group_first: "length (group_first xs) = card ((\<lambda>d. fld d ''id'') ` set xs)"
proof -
  have "length (group_first xs) = length (map (\<lambda>d. fld d ''id'') (group_first xs))" by simp
  also have "\<dots> = card (set (map (\<lambda>d. fld d ''id'') (group_first xs)))"
    by (rule distinct_card[symmetric]) (rule distinct_group_first)
  also have "\<dots> = card ((\<lambda>d. fld d ''id'') ` set xs)"
    by (simp add: ids_group_first)
  finally show ?thesis .
qed

declare paged.simps [simp del]

lemma paged_eq:
  "totalCount = length (latest_per_id docs) \<Longrightarrow>
   paged docs totalCount skip result = result @ drop skip (latest_per_id docs)"
proof (induction docs totalCount skip result rule: paged.induct)
  case (1 docs totalCount skip result)
  show ?case
  proof (cases "skip < totalCount")
    case True
    have "take batchSize (drop skip (latest_per_id docs)) @ drop (skip + batchSize) (latest_per_id docs)
            = drop skip (latest_per_id docs)"
      by (metis add.commute append_take_drop_id drop_drop)
    with "1.IH"[OF True "1.prems"] True show ?thesis
      by (subst paged.simps) simp
  next
    case False
    with "1.prems" show ?thesis by (subst paged.simps) simp
  qed
qed

lemma materialised_eq: "materialised docs = latest_per_id docs"
  by (simp add: materialised_def paged_eq)

lemma latest_per_id_nonempty: "docs \<noteq> [] \<Longrightarrow> latest_per_id docs \<noteq> []"
proof -
  assume "docs \<noteq> []"
  then have "set (sort_block_ts_desc docs) \<noteq> {}" by simp
  then have "sort_block_ts_desc docs \<noteq> []" by (simp only: set_empty) simp
  then show ?thesis by (cases "sort_block_ts_desc docs") (simp_all add: latest_per_id_def)
qed

text \<open>
  C4, amended. For an immutable collection other than \<^verbatim>\<open>__meta__\<close>: with \<^verbatim>\<open>newDb\<close> and
  \<^verbatim>\<open>warmDb\<close> unset and at least one document stored, \<^verbatim>\<open>get(ref)\<close> returns the latest-per-id
  view, read in pages of 5000: as many records as the collection has distinct ids, one per
  id, each a stored document whose \<^verbatim>\<open>_block_ts\<close> no other version of its id exceeds; with
  both flags unset and no document stored it fails with NotFound; with \<^verbatim>\<open>newDb\<close> or \<^verbatim>\<open>warmDb\<close>
  set the collection is not read, and \<^verbatim>\<open>get(ref)\<close> returns the values of the cache entry of
  the collection, or fails with NotFound when the cache has no entry for it.
\<close>

theorem get_materialised_view:
  assumes "truthy (key_ref k)" "\<not> truthy_opt (key_id k)" "\<not> mutable s" "key_ref k \<noteq> ''__meta__''"
  shows "(\<not> newDb (engine s) \<and> \<not> warmDb (engine s) \<and> db s (key_ref k) \<noteq> [] \<longrightarrow>
            get k s = Inr (Many (latest_per_id (db s (key_ref k)))))
       \<and> length (latest_per_id (db s (key_ref k))) = card ((\<lambda>d. fld d ''id'') ` set (db s (key_ref k)))
       \<and> distinct (map (\<lambda>d. fld d ''id'') (latest_per_id (db s (key_ref k))))
       \<and> (\<forall>d\<in>set (latest_per_id (db s (key_ref k))).
            d \<in> set (db s (key_ref k))
            \<and> (\<forall>e\<in>set (db s (key_ref k)). fld e ''id'' = fld d ''id'' \<longrightarrow> block_ts e \<le> block_ts d))
       \<and> (\<not> newDb (engine s) \<and> \<not> warmDb (engine s) \<and> db s (key_ref k) = [] \<longrightarrow>
            get k s = Inl NotFound)
       \<and> (newDb (engine s) \<or> warmDb (engine s) \<longrightarrow>
            get k s = (case kv s (key_ref k) of
                         Some c \<Rightarrow> Inr (Many (map snd c))
                       | None \<Rightarrow> Inl NotFound))"
proof -
  let ?docs = "db s (key_ref k)"
  have g: "\<not> newDb (engine s) \<and> \<not> warmDb (engine s) \<and> ?docs \<noteq> [] \<longrightarrow>
            get k s = Inr (Many (latest_per_id ?docs))"
    using assms latest_per_id_nonempty[of ?docs]
    by (simp add: get_def Let_def reads_through_def materialised_eq)
  have l: "length (latest_per_id ?docs) = card ((\<lambda>d. fld d ''id'') ` set ?docs)"
    by (simp add: latest_per_id_def length_group_first)
  have d: "distinct (map (\<lambda>d. fld d ''id'') (latest_per_id ?docs))"
    by (simp add: latest_per_id_def distinct_group_first)
  have m: "\<forall>d\<in>set (latest_per_id ?docs).
            d \<in> set ?docs \<and> (\<forall>e\<in>set ?docs. fld e ''id'' = fld d ''id'' \<longrightarrow> block_ts e \<le> block_ts d)"
  proof (intro ballI conjI impI)
    fix d assume d: "d \<in> set (latest_per_id ?docs)"
    then show "d \<in> set ?docs"
      using set_group_first_subset[of "sort_block_ts_desc ?docs"] by (auto simp: latest_per_id_def)
    fix e assume "e \<in> set ?docs" "fld e ''id'' = fld d ''id''"
    then show "block_ts e \<le> block_ts d"
      using group_first_latest[OF sorted_sort_block_ts_desc, of d ?docs e] d
      by (simp add: latest_per_id_def)
  qed
  have e: "\<not> newDb (engine s) \<and> \<not> warmDb (engine s) \<and> ?docs = [] \<longrightarrow> get k s = Inl NotFound"
    using assms
    by (simp add: get_def Let_def reads_through_def materialised_eq latest_per_id_def
        sort_block_ts_desc_def)
  have c: "newDb (engine s) \<or> warmDb (engine s) \<longrightarrow>
            get k s = (case kv s (key_ref k) of
                         Some c \<Rightarrow> Inr (Many (map snd c))
                       | None \<Rightarrow> Inl NotFound)"
    using assms
    by (auto simp: get_def Let_def reads_through_def)
  from g l d m e c show ?thesis by blast
qed

theorem get_materialised_view_witness:
  "truthy (key_ref ''c'') \<and> \<not> truthy_opt (key_id ''c'') \<and> \<not> mutable store0
   \<and> get ''c'' (store0\<lparr>db := (\<lambda>_. [doc ''a'' 1, doc ''b'' 1, doc ''a'' 2])\<rparr>)
       = Inr (Many [doc ''a'' 2, doc ''b'' 1])
   \<and> get ''c'' store0 = Inl NotFound
   \<and> get ''c'' (store0\<lparr>kv := [''c'' \<mapsto> [(''z'', doc ''z'' 9)]], engine := engine0\<lparr>warmDb := True\<rparr>,
                        db := (\<lambda>_. [doc ''a'' 1, doc ''b'' 1, doc ''a'' 2])\<rparr>)
       = Inr (Many [doc ''z'' 9])
   \<and> get ''c'' (store0\<lparr>engine := engine0\<lparr>newDb := True\<rparr>,
                        db := (\<lambda>_. [doc ''a'' 1, doc ''b'' 1, doc ''a'' 2])\<rparr>)
       = Inl NotFound"
proof -
  let ?s = "store0\<lparr>db := (\<lambda>_. [doc ''a'' 1, doc ''b'' 1, doc ''a'' 2])\<rparr>"
  let ?w = "store0\<lparr>kv := [''c'' \<mapsto> [(''z'', doc ''z'' 9)]], engine := engine0\<lparr>warmDb := True\<rparr>,
                   db := (\<lambda>_. [doc ''a'' 1, doc ''b'' 1, doc ''a'' 2])\<rparr>"
  let ?n = "store0\<lparr>engine := engine0\<lparr>newDb := True\<rparr>,
                   db := (\<lambda>_. [doc ''a'' 1, doc ''b'' 1, doc ''a'' 2])\<rparr>"
  have h: "truthy (key_ref ''c'')" "\<not> truthy_opt (key_id ''c'')"
    and r: "key_ref ''c'' = ''c''" "key_ref ''c'' \<noteq> ''__meta__''"
    by (simp_all add: key_ref_def key_id_def truthy_def truthy_opt_def)
  have m: "\<not> mutable store0" "\<not> mutable ?s" "\<not> mutable ?w" "\<not> mutable ?n"
    by (simp_all add: store0_def)
  have v: "latest_per_id [doc ''a'' 1, doc ''b'' 1, doc ''a'' 2] = [doc ''a'' 2, doc ''b'' 1]"
    by code_simp
  have 1: "get ''c'' ?s = Inr (Many [doc ''a'' 2, doc ''b'' 1])"
    using get_materialised_view[OF h m(2) r(2)] by (simp add: r v store0_def engine0_def)
  have 2: "get ''c'' store0 = Inl NotFound"
    using get_materialised_view[OF h m(1) r(2)] by (simp add: r store0_def engine0_def)
  have 3: "get ''c'' ?w = Inr (Many [doc ''z'' 9])"
    using get_materialised_view[OF h m(3) r(2)] by (simp add: r)
  have 4: "get ''c'' ?n = Inl NotFound"
    using get_materialised_view[OF h m(4) r(2)] by (simp add: r store0_def)
  from h(1,2) m(1) 1 2 3 4 show ?thesis by blast
qed

text \<open>
  C4, as stated, fails: with \<^verbatim>\<open>newDb\<close> or \<^verbatim>\<open>warmDb\<close> set the collection is not read, so a
  collection with documents of two ids gives NotFound, or the one value the cache holds; and
  for a collection with no document \<^verbatim>\<open>get\<close> fails with NotFound instead of returning no
  record.
\<close>

theorem get_view_not_always_read:
  "get ''c'' (store0\<lparr>engine := engine0\<lparr>newDb := True\<rparr>, db := (\<lambda>_. [doc ''a'' 1])\<rparr>) = Inl NotFound
   \<and> get ''c'' (store0\<lparr>engine := engine0\<lparr>warmDb := True\<rparr>, db := (\<lambda>_. [doc ''a'' 1])\<rparr>) = Inl NotFound
   \<and> get ''c'' store0 = Inl NotFound
   \<and> get ''c'' (store0\<lparr>kv := [''c'' \<mapsto> [(''z'', doc ''z'' 9)]], engine := engine0\<lparr>warmDb := True\<rparr>,
                        db := (\<lambda>_. [doc ''a'' 1, doc ''b'' 1])\<rparr>) = Inr (Many [doc ''z'' 9])"
  by (simp add: get_def Let_def key_ref_def key_id_def truthy_def truthy_opt_def reads_through_def
      store0_def engine0_def materialised_eq latest_per_id_def sort_block_ts_desc_def)

subsection \<open>The dispatcher and staging\<close>

lemma events_endProcessingBlock:
  "events (endProcessingBlock handler n c ae vals w) = events w"
  by (simp add: endProcessingBlock_def restackListenerBlock_def Let_def split: outcome.splits)

text \<open>
  C9. With \<^verbatim>\<open>latestBlocks[chainId]\<close> present, \<^verbatim>\<open>processListenerBlockSafely\<close> reads the staged
  data, arms the timeout and calls the handler exactly when \<^verbatim>\<open>startBlocks[chainId]\<close> is set
  and not zero, \<^verbatim>\<open>number >= startBlocks[chainId]\<close> and \<^verbatim>\<open>number >= latestBlocks[chainId].number\<close>
  (equality included); in every other case it returns with the world unchanged.
\<close>

theorem skip_guard:
  assumes "latestBlocks (theEngine w) c = Some latest"
  shows "((\<exists>start. startBlocks (theEngine w) c = Some start \<and> start \<noteq> 0 \<and> start \<le> n) \<and> latest \<le> n \<longrightarrow>
            (\<exists>w'. processListenerBlockSafely handler n c parts ae vals w = Inr w'
                 \<and> events w' = events w @ [ReadStaged n c parts, TimeoutArmed n c, Processed n c]))
       \<and> (\<not> ((\<exists>start. startBlocks (theEngine w) c = Some start \<and> start \<noteq> 0 \<and> start \<le> n) \<and> latest \<le> n) \<longrightarrow>
            processListenerBlockSafely handler n c parts ae vals w = Inr w)"
  using assms
  by (auto simp: processListenerBlockSafely_def events_endProcessingBlock startProcessingBlock_def
      Let_def split: option.splits)

theorem skip_guard_witness:
  "latestBlocks (theEngine world0) 1 = Some 100
   \<and> (\<exists>w'. processListenerBlockSafely (\<lambda>n c e. (Returned, e)) 100 1 0 [] None world0 = Inr w'
          \<and> events w' = [ReadStaged 100 1 0, TimeoutArmed 100 1, Processed 100 1])
   \<and> processListenerBlockSafely (\<lambda>n c e. (Returned, e)) 99 1 0 [] None world0 = Inr world0
   \<and> processListenerBlockSafely (\<lambda>n c e. (Returned, e)) 100 1 0 [] None
        (world0\<lparr>theEngine := (theEngine world0)\<lparr>startBlocks := [1 \<mapsto> 0]\<rparr>\<rparr>)
       = Inr (world0\<lparr>theEngine := (theEngine world0)\<lparr>startBlocks := [1 \<mapsto> 0]\<rparr>\<rparr>)"
proof -
  let ?z = "world0\<lparr>theEngine := (theEngine world0)\<lparr>startBlocks := [1 \<mapsto> 0]\<rparr>\<rparr>"
  have h: "latestBlocks (theEngine world0) 1 = Some 100"
    and hz: "latestBlocks (theEngine ?z) 1 = Some 100"
    by (simp_all add: world0_def)
  have 1: "\<exists>w'. processListenerBlockSafely (\<lambda>n c e. (Returned, e)) 100 1 0 [] None world0 = Inr w'
          \<and> events w' = [ReadStaged 100 1 0, TimeoutArmed 100 1, Processed 100 1]"
    using skip_guard[OF h, of 100 "\<lambda>n c e. (Returned, e)" 0 "[]" None] by (simp add: world0_def)
  have 2: "processListenerBlockSafely (\<lambda>n c e. (Returned, e)) 99 1 0 [] None world0 = Inr world0"
    using skip_guard[OF h, of 99 "\<lambda>n c e. (Returned, e)" 0 "[]" None] by simp
  have 3: "processListenerBlockSafely (\<lambda>n c e. (Returned, e)) 100 1 0 [] None ?z = Inr ?z"
    using skip_guard[OF hz, of 100 "\<lambda>n c e. (Returned, e)" 0 "[]" None] by (simp add: world0_def)
  from h 1 2 3 show ?thesis by blast
qed

lemma restack_at_end_of_processing:
  assumes "fst (handler n c (theEngine w)) = Threw \<or> cancelledOn vals"
  shows "blockQueue (endProcessingBlock handler n c ae vals w)
           = \<lparr>number = n, chainId = c, asyncParts = length (staged w), asyncEntities = ae\<rparr> # blockQueue w
       \<and> staged (endProcessingBlock handler n c ae vals w) = staged w @ [(n, c)]
       \<and> staged (endProcessingBlock handler n c ae vals w) ! length (staged w) = (n, c)"
  using assms
  by (auto simp: endProcessingBlock_def restackListenerBlock_def Let_def split: outcome.splits)

lemma getReceipts_eq:
  "\<forall>tx\<in>set txs. getTransactionReceipt (receiptReplies provider (hash tx)) tx \<noteq> None \<Longrightarrow>
   getReceipts e provider c txs disk =
     Some (map (\<lambda>tx. the (getTransactionReceipt (receiptReplies provider (hash tx)) tx)) txs,
           disk @ (if cleanup (flags e) then []
                   else map (\<lambda>tx. Transactions c (the (getTransactionReceipt (receiptReplies provider (hash tx)) tx))) txs))"
  by (induction txs arbitrary: disk) (auto simp: getReceipt_def)

text \<open>
  C8. Once every receipt of the block has arrived, staging has written: with \<^verbatim>\<open>flags.cleanup\<close>
  set, the combined \<^verbatim>\<open>blockAndReceipts\<close> artefact of the block and nothing else; with it unset,
  a \<^verbatim>\<open>transactions\<close> artefact per transaction, the \<^verbatim>\<open>blocks\<close> artefact and the combined one.
\<close>

theorem staging_artefacts:
  assumes "\<forall>tx\<in>set (transactions (blockAt provider n)).
             getTransactionReceipt (receiptReplies provider (hash tx)) tx \<noteq> None"
  shows "awaitListenerBlockAndReceipts e provider n c disk =
     Some (disk
           @ (if cleanup (flags e) then []
              else map (\<lambda>tx. Transactions c (the (getTransactionReceipt (receiptReplies provider (hash tx)) tx)))
                     (transactions (blockAt provider n))
                   @ [Blocks c (number' (blockAt provider n))])
           @ [BlockAndReceipts c (number' (blockAt provider n))])"
  by (simp add: awaitListenerBlockAndReceipts_def Let_def getReceipts_eq[OF assms])

theorem staging_artefacts_witness:
  "getTransactionReceipt [Fault, Receipt [], Receipt ''0xa''] \<lparr>hash = ''0xa''\<rparr> = Some ''0xa''
   \<and> getTransactionReceipt [Fault, Receipt [], Receipt ''0xb''] \<lparr>hash = ''0xb''\<rparr> = Some ''0xb''
   \<and> awaitListenerBlockAndReceipts (engine0\<lparr>flags := \<lparr>cleanup = True\<rparr>\<rparr>)
        \<lparr>blockAt = (\<lambda>n. \<lparr>number' = n, transactions = [\<lparr>hash = ''0xa''\<rparr>, \<lparr>hash = ''0xb''\<rparr>]\<rparr>),
         receiptReplies = (\<lambda>h. [Fault, Receipt [], Receipt h])\<rparr> 7 1 []
       = Some [BlockAndReceipts 1 7]
   \<and> awaitListenerBlockAndReceipts engine0
        \<lparr>blockAt = (\<lambda>n. \<lparr>number' = n, transactions = [\<lparr>hash = ''0xa''\<rparr>, \<lparr>hash = ''0xb''\<rparr>]\<rparr>),
         receiptReplies = (\<lambda>h. [Fault, Receipt [], Receipt h])\<rparr> 7 1 []
       = Some [Transactions 1 ''0xa'', Transactions 1 ''0xb'', Blocks 1 7, BlockAndReceipts 1 7]"
proof -
  let ?p = "\<lparr>blockAt = (\<lambda>n. \<lparr>number' = n, transactions = [\<lparr>hash = ''0xa''\<rparr>, \<lparr>hash = ''0xb''\<rparr>]\<rparr>),
             receiptReplies = (\<lambda>h. [Fault, Receipt [], Receipt h])\<rparr>"
  have h: "\<forall>tx\<in>set (transactions (blockAt ?p 7)).
             getTransactionReceipt (receiptReplies ?p (hash tx)) tx \<noteq> None"
    by (simp add: truthy_def)
  have 1: "awaitListenerBlockAndReceipts (engine0\<lparr>flags := \<lparr>cleanup = True\<rparr>\<rparr>) ?p 7 1 [] = Some [BlockAndReceipts 1 7]"
    using staging_artefacts[OF h, of "engine0\<lparr>flags := \<lparr>cleanup = True\<rparr>\<rparr>" 1 "[]"] by simp
  have 2: "awaitListenerBlockAndReceipts engine0 ?p 7 1 []
       = Some [Transactions 1 ''0xa'', Transactions 1 ''0xb'', Blocks 1 7, BlockAndReceipts 1 7]"
    using staging_artefacts[OF h, of engine0 1 "[]"] by (simp add: engine0_def truthy_def)
  have r: "getTransactionReceipt [Fault, Receipt [], Receipt ''0xa''] \<lparr>hash = ''0xa''\<rparr> = Some ''0xa''"
    "getTransactionReceipt [Fault, Receipt [], Receipt ''0xb''] \<lparr>hash = ''0xb''\<rparr> = Some ''0xb''"
    by (simp_all add: truthy_def)
  from r 1 2 show ?thesis by simp
qed

lemma fillGap_returns:
  "latestBlockNumber \<le> head \<Longrightarrow>
   fillGap latestBlockNumber head c indexedMigrations w =
     Some (foldl (\<lambda>w k. recordListenerBlock k c indexedMigrations w) w [latestBlockNumber + 1..head])"
proof (induction "nat (head - latestBlockNumber)" arbitrary: latestBlockNumber w)
  case 0
  then have "latestBlockNumber = head" by simp
  then show ?case by (subst fillGap.simps) simp
next
  case (Suc k)
  then have lt: "latestBlockNumber < head" and k: "k = nat (head - (latestBlockNumber + 1))"
    and le: "latestBlockNumber + 1 \<le> head"
    by simp_all
  have u: "[latestBlockNumber + 1..head] = (latestBlockNumber + 1) # [latestBlockNumber + 1 + 1..head]"
    using le by (simp add: upto_rec1)
  show ?case
    using lt by (subst fillGap.simps) (simp add: Suc.hyps(1)[OF k le] u)
qed

text \<open>
  C1. A listener event for block 105 arrives while the latest block of chain 1 is 100:
  \<^verbatim>\<open>attemptNextBlock\<close> records blocks 101 to 105 behind the head and hands block 105 to
  processing first, whatever the handler does; 101 to 104 wait in the queue behind it.
\<close>

theorem gap_fill_hands_head_first:
  "\<exists>w'. attemptNextBlock handler indexedMigrations vals world0 = Some (Inr w')
        \<and> events w' = [ReadStaged 105 1 0, TimeoutArmed 105 1, Processed 105 1]
        \<and> (map number (blockQueue w') = [101, 102, 103, 104, 105]
             \<or> map number (blockQueue w') = [105, 101, 102, 103, 104, 105])"
proof -
  have g: "fillGap 100 105 1 indexedMigrations world0 =
             Some (foldl (\<lambda>w k. recordListenerBlock k 1 indexedMigrations w) world0 [101, 102, 103, 104, 105])"
    using fillGap_returns[of 100 105 1 indexedMigrations world0] by (simp add: upto_rec1)
  note g' = g[unfolded world0_def]
  show ?thesis
    by (cases "fst (handler 105 1 (engine0\<lparr>startBlocks := [1 \<mapsto> 1], latestBlocks := [1 \<mapsto> 100]\<rparr>))";
        cases "cancelledOn vals")
       (simp_all add: attemptNextBlock_def g' world0_def recordListenerBlock_def
          processListenerBlockSafely_def startProcessingBlock_def endProcessingBlock_def
          restackListenerBlock_def Let_def)
qed

declare fillGap.simps [code]

lemma dispatch_after_gap:
  "map_option (map_sum id (\<lambda>w. (map number (blockQueue w), events w)))
     (dispatch 6 advance Map.empty None world0)
   = Some (Inr ([], [ReadStaged 105 1 0, TimeoutArmed 105 1, Processed 105 1,
                     ReadStaged 105 1 5, TimeoutArmed 105 1, Processed 105 1]))"
  by code_simp

text \<open>
  C2. Blocks 200 and 201 are queued and the latest block is 199. The handler of block 200 is
  still running when its timeout fires, so the dispatcher goes on: it fills the gap it sees
  before block 201 by recording 200 and 201 again, and processes block 201, which becomes the
  latest block. The handler of block 200 then throws, and block 200 is put back at index 0 of
  the queue with a new staging run. The next attempt takes it from the queue and, 200 being
  below the latest block, returns without processing it; the recorded copy of block 200 goes
  the same way, and block 201 is processed a second time. The queue is then empty, and block
  200 has been handed to the handler once, in the run that failed.
\<close>

theorem restacked_block_dropped:
  "map_option (map_sum id (\<lambda>w. (map number (blockQueue w), map number (running w), events w,
                                    latestBlocks (theEngine w) 1)))
     (run (failsOn 200) Map.empty [NextBlock (Some \<lparr>cancelled = True\<rparr>), NextBlock None] world1)
   = Some (Inr ([200, 201], [200],
                [ReadStaged 200 1 0, TimeoutArmed 200 1, Processed 200 1,
                 ReadStaged 201 1 1, TimeoutArmed 201 1, Processed 201 1], Some 201))
   \<and> map_option (map_sum id (\<lambda>w. (blockQueue w, map number (running w), events w)))
     (run (failsOn 200) Map.empty
        [NextBlock (Some \<lparr>cancelled = True\<rparr>), NextBlock None, ArmEnds (Some \<lparr>cancelled = True\<rparr>)]
        world1)
   = Some (Inr ([\<lparr>number = 200, chainId = 1, asyncParts = 4, asyncEntities = []\<rparr>,
                 \<lparr>number = 200, chainId = 1, asyncParts = 2, asyncEntities = []\<rparr>,
                 \<lparr>number = 201, chainId = 1, asyncParts = 3, asyncEntities = []\<rparr>], [],
                [ReadStaged 200 1 0, TimeoutArmed 200 1, Processed 200 1,
                 ReadStaged 201 1 1, TimeoutArmed 201 1, Processed 201 1]))
   \<and> map_option (map_sum id (\<lambda>w. (map number (blockQueue w), map number (running w), events w)))
     (run (failsOn 200) Map.empty
        [NextBlock (Some \<lparr>cancelled = True\<rparr>), NextBlock None, ArmEnds (Some \<lparr>cancelled = True\<rparr>),
         NextBlock None] world1)
   = Some (Inr ([200, 201], [],
                [ReadStaged 200 1 0, TimeoutArmed 200 1, Processed 200 1,
                 ReadStaged 201 1 1, TimeoutArmed 201 1, Processed 201 1]))
   \<and> map_option (map_sum id (\<lambda>w. (map number (blockQueue w), map number (running w), events w)))
     (run (failsOn 200) Map.empty
        [NextBlock (Some \<lparr>cancelled = True\<rparr>), NextBlock None, ArmEnds (Some \<lparr>cancelled = True\<rparr>),
         NextBlock None, NextBlock None, NextBlock None] world1)
   = Some (Inr ([], [],
                [ReadStaged 200 1 0, TimeoutArmed 200 1, Processed 200 1,
                 ReadStaged 201 1 1, TimeoutArmed 201 1, Processed 201 1,
                 ReadStaged 201 1 3, TimeoutArmed 201 1, Processed 201 1]))"
  by code_simp

end
